theory Spec2Isabelle
  imports Main
begin

section \<open>The constant array builder of the bytecode interpreter\<close>

text \<open>
  A shallow embedding of \<^verbatim>\<open>src/interpreter/constant-array-builder.cc\<close>.

  \<^item> A \<^verbatim>\<open>Handle<Object>\<close> is a value of the type variable \<open>'a\<close>: the identity of the
    constant. The builder keys its map by \<^verbatim>\<open>object.address()\<close> and compares
    \<^verbatim>\<open>*constant\<close> in \<^verbatim>\<open>AllElementsAreUnique\<close>; with canonical handles both are the
    same identity, which is what \<open>'a\<close> stands for.
  \<^item> \<^verbatim>\<open>size_t\<close> values are natural numbers. Every subtraction of the source is guarded
    by a \<^verbatim>\<open>DCHECK\<close> or by the slice invariant, so no \<^verbatim>\<open>size_t\<close> operation wraps in a
    state the theorems speak about. The narrowing casts, to \<^verbatim>\<open>index_t\<close> and
    \<^verbatim>\<open>uint32_t\<close> and to \<^verbatim>\<open>int\<close>, are written out with their wrap-around.
  \<^item> A failed \<^verbatim>\<open>DCHECK\<close> and a reached \<^verbatim>\<open>UNREACHABLE()\<close> are fatal: the operation
    returns \<open>Inl\<close> of an error that names the check.
  \<^item> Mutation is state passing: an operation takes the slice or builder and returns the
    updated one beside its result.
\<close>

subsection \<open>Data\<close>

datatype OperandSize = kNone | kByte | kShort | kQuad

text \<open>
  Which check of the source failed.
  \<^item> \<open>CapacityExhausted\<close>: \<^verbatim>\<open>DCHECK_GT(available(), 0u)\<close>,
    \<^verbatim>\<open>DCHECK_LE(reserved_, capacity() - constants_.size())\<close>,
    \<^verbatim>\<open>DCHECK_LT(index, capacity())\<close> of \<^verbatim>\<open>Allocate\<close>, and the \<^verbatim>\<open>UNREACHABLE()\<close> after the
    loops of \<^verbatim>\<open>AllocateIndex\<close> and \<^verbatim>\<open>CreateReservedEntry\<close>.
  \<^item> \<open>ReservationMismatch\<close>: \<^verbatim>\<open>DCHECK_GT(reserved_, 0u)\<close>.
  \<^item> \<open>InvalidIndex\<close>: the two range checks of the slice's \<^verbatim>\<open>At\<close> and \<^verbatim>\<open>InsertAt\<close>.
  \<^item> \<open>NoSliceForIndex\<close>: the \<^verbatim>\<open>UNREACHABLE()\<close> of \<^verbatim>\<open>IndexToSlice\<close>.
  \<^item> \<open>IndexNotBelowCapacity\<close>: \<^verbatim>\<open>DCHECK_LT(index, slice->capacity())\<close> of the builder's
    \<^verbatim>\<open>At\<close>.
  \<^item> \<open>NonCanonicalDuplicate\<close>: \<^verbatim>\<open>DCHECK(slice->AllElementsAreUnique())\<close>.
  \<^item> \<open>InvalidOperandSize\<close>: the \<^verbatim>\<open>kNone\<close> case and the operand size check of
    \<^verbatim>\<open>OperandSizeToSlice\<close>.
  \<^item> \<open>SlotNotHole\<close>: \<^verbatim>\<open>DCHECK_EQ(the_hole_value, *At(index))\<close>.
  \<^item> \<open>ArrayIndexNotPowerOfTwo\<close>, \<open>ArrayLengthMismatch\<close>: the two checks on
    \<^verbatim>\<open>array_index\<close> in \<^verbatim>\<open>ToFixedArray\<close>.
  \<^item> \<open>InvalidArrayLength\<close>, \<open>ArrayIndexOutOfBounds\<close>: the fixed array refusing a negative
    length, or a write outside its length.
\<close>

datatype error =
    CapacityExhausted
  | ReservationMismatch
  | InvalidIndex
  | NoSliceForIndex
  | IndexNotBelowCapacity
  | NonCanonicalDuplicate
  | InvalidOperandSize
  | SlotNotHole
  | ArrayIndexNotPowerOfTwo
  | ArrayLengthMismatch
  | InvalidArrayLength
  | ArrayIndexOutOfBounds

record 'a ConstantArraySlice =
  start_index :: nat
  capacity :: nat
  reserved :: nat
  operand_size :: OperandSize
  constants :: "'a list"

text \<open>
  The builder: \<open>the_hole_value\<close> is what \<^verbatim>\<open>isolate_->factory()->the_hole_value()\<close> yields,
  \<open>constants_map\<close> is \<^verbatim>\<open>constants_map_\<close> and \<open>idx_slice\<close> the array \<^verbatim>\<open>idx_slice_\<close> of
  three slices. A pointer to a slice is its position in \<open>idx_slice\<close>.
\<close>

record 'a ConstantArrayBuilder =
  the_hole_value :: 'a
  constants_map :: "'a \<rightharpoonup> nat"
  idx_slice :: "'a ConstantArraySlice list"

subsection \<open>Accessors of the slice\<close>

text \<open>
  The inline accessors \<^verbatim>\<open>size()\<close>, \<^verbatim>\<open>available()\<close> and \<^verbatim>\<open>max_index()\<close> of the slice
  are declared in \<^verbatim>\<open>constant-array-builder.h\<close>, which is not among the sources; the
  accessors \<^verbatim>\<open>start_index()\<close>, \<^verbatim>\<open>capacity()\<close>, \<^verbatim>\<open>reserved()\<close> and \<^verbatim>\<open>operand_size()\<close>
  are the fields of the record.
\<close>

text \<open>
  Modelled from the spec: \<^verbatim>\<open>size()\<close> of a slice, the number of its committed values
  (\<open>values.length\<close>).
\<close>

definition slice_size :: "'a ConstantArraySlice \<Rightarrow> nat" where
  "slice_size s = length (constants s)"

text \<open>
  Modelled from the spec: \<^verbatim>\<open>available()\<close>, for which the spec gives
  \<open>available = capacity - values.length - reserved\<close>. Under the slice invariant the
  subtraction does not wrap.
\<close>

definition available :: "'a ConstantArraySlice \<Rightarrow> nat" where
  "available s = capacity s - reserved s - slice_size s"

text \<open>
  Modelled from the spec: \<^verbatim>\<open>max_index()\<close>, the last index of the range
  \<open>[start_index, start_index + capacity)\<close> that the spec gives a tier.
\<close>

definition max_index :: "'a ConstantArraySlice \<Rightarrow> nat" where
  "max_index s = start_index s + capacity s - 1"

subsection \<open>Casts\<close>

definition static_cast_index_t :: "nat \<Rightarrow> nat" where
  "static_cast_index_t n = n mod 2 ^ 32"

definition static_cast_int :: "nat \<Rightarrow> int" where
  "static_cast_int n =
     (let m = int (n mod 2 ^ 32) in if m < 2 ^ 31 then m else m - 2 ^ 32)"

definition static_cast_uint32_t :: "int \<Rightarrow> nat" where
  "static_cast_uint32_t i = nat (i mod 2 ^ 32)"

text \<open>
  Modelled from the spec: \<^verbatim>\<open>base::bits::IsPowerOfTwo32\<close> is declared outside the sources;
  it holds of the 32-bit values \<open>2 ^ k\<close>. The spec's tiers start at such offsets.
\<close>

definition IsPowerOfTwo32 :: "nat \<Rightarrow> bool" where
  "IsPowerOfTwo32 v = (v \<in> set (map (\<lambda>k. 2 ^ k) [0..<32]))"

subsection \<open>ConstantArraySlice\<close>

definition new_ConstantArraySlice ::
  "nat \<Rightarrow> nat \<Rightarrow> OperandSize \<Rightarrow> 'a ConstantArraySlice" where
  "new_ConstantArraySlice start cap os =
     \<lparr>start_index = start, capacity = cap, reserved = 0, operand_size = os,
      constants = []\<rparr>"

definition Reserve :: "'a ConstantArraySlice \<Rightarrow> error + 'a ConstantArraySlice" where
  "Reserve s =
     (if \<not> available s > 0 then Inl CapacityExhausted
      else let s' = s\<lparr>reserved := reserved s + 1\<rparr> in
        if \<not> reserved s' \<le> capacity s' - length (constants s') then Inl CapacityExhausted
        else Inr s')"

definition Unreserve :: "'a ConstantArraySlice \<Rightarrow> error + 'a ConstantArraySlice" where
  "Unreserve s =
     (if \<not> reserved s > 0 then Inl ReservationMismatch
      else Inr (s\<lparr>reserved := reserved s - 1\<rparr>))"

definition Allocate ::
  "'a ConstantArraySlice \<Rightarrow> 'a \<Rightarrow> error + (nat \<times> 'a ConstantArraySlice)" where
  "Allocate s object =
     (if \<not> available s > 0 then Inl CapacityExhausted
      else let index = length (constants s) in
        if \<not> index < capacity s then Inl CapacityExhausted
        else Inr (index + start_index s, s\<lparr>constants := constants s @ [object]\<rparr>))"

definition Slice_At :: "'a ConstantArraySlice \<Rightarrow> nat \<Rightarrow> error + 'a" where
  "Slice_At s index =
     (if \<not> index \<ge> start_index s then Inl InvalidIndex
      else if \<not> index < start_index s + slice_size s then Inl InvalidIndex
      else Inr (constants s ! (index - start_index s)))"

definition InsertAt ::
  "'a ConstantArraySlice \<Rightarrow> nat \<Rightarrow> 'a \<Rightarrow> error + 'a ConstantArraySlice" where
  "InsertAt s index object =
     (if \<not> index \<ge> start_index s then Inl InvalidIndex
      else if \<not> index < start_index s + slice_size s then Inl InvalidIndex
      else Inr (s\<lparr>constants := (constants s)[index - start_index s := object]\<rparr>))"

text \<open>The loop over \<^verbatim>\<open>constants_\<close> with the \<^verbatim>\<open>std::set\<close> of the elements seen so far.\<close>

fun AllElementsAreUnique_loop :: "'a list \<Rightarrow> 'a set \<Rightarrow> bool" where
  "AllElementsAreUnique_loop [] elements = True"
| "AllElementsAreUnique_loop (c # cs) elements =
     (if c \<in> elements then False
      else AllElementsAreUnique_loop cs (insert c elements))"

definition AllElementsAreUnique :: "'a ConstantArraySlice \<Rightarrow> bool" where
  "AllElementsAreUnique s = AllElementsAreUnique_loop (constants s) {}"

subsection \<open>ConstantArrayBuilder\<close>

text \<open>
  The constructor. The capacities \<^verbatim>\<open>k8BitCapacity\<close>, \<^verbatim>\<open>k16BitCapacity\<close> and
  \<^verbatim>\<open>k32BitCapacity\<close> are constants of the header and so are parameters here, as is the
  isolate's hole value.
\<close>

definition new_ConstantArrayBuilder ::
  "nat \<Rightarrow> nat \<Rightarrow> nat \<Rightarrow> 'a \<Rightarrow> 'a ConstantArrayBuilder" where
  "new_ConstantArrayBuilder k8BitCapacity k16BitCapacity k32BitCapacity hole =
     \<lparr>the_hole_value = hole, constants_map = Map.empty,
      idx_slice =
        [new_ConstantArraySlice 0 k8BitCapacity kByte,
         new_ConstantArraySlice k8BitCapacity k16BitCapacity kShort,
         new_ConstantArraySlice (k8BitCapacity + k16BitCapacity) k32BitCapacity kQuad]\<rparr>"

text \<open>
  \<^verbatim>\<open>size()\<close>: the loop visits the slices from the last to the first; the argument of
  \<open>size_loop\<close> is the list of slices still to visit, in the order of the visits.
\<close>

fun size_loop :: "'a ConstantArraySlice list \<Rightarrow> nat option" where
  "size_loop [] = None"
| "size_loop (slice # rest) =
     (if slice_size slice > 0 then Some (start_index slice + slice_size slice)
      else size_loop rest)"

definition builder_size :: "'a ConstantArrayBuilder \<Rightarrow> nat" where
  "builder_size b =
     (case size_loop (rev (idx_slice b)) of
        Some n \<Rightarrow> n
      | None \<Rightarrow> slice_size (hd (idx_slice b)))"

text \<open>\<^verbatim>\<open>IndexToSlice\<close>: \<open>k\<close> is the position of the first slice of the list.\<close>

fun IndexToSlice_loop :: "'a ConstantArraySlice list \<Rightarrow> nat \<Rightarrow> nat \<Rightarrow> error + nat" where
  "IndexToSlice_loop [] index k = Inl NoSliceForIndex"
| "IndexToSlice_loop (slice # rest) index k =
     (if index \<le> max_index slice then Inr k
      else IndexToSlice_loop rest index (Suc k))"

definition IndexToSlice :: "'a ConstantArrayBuilder \<Rightarrow> nat \<Rightarrow> error + nat" where
  "IndexToSlice b index = IndexToSlice_loop (idx_slice b) index 0"

definition At :: "'a ConstantArrayBuilder \<Rightarrow> nat \<Rightarrow> error + 'a" where
  "At b index =
     (case IndexToSlice b index of
        Inl e \<Rightarrow> Inl e
      | Inr k \<Rightarrow>
          let slice = idx_slice b ! k in
          if index < start_index slice + slice_size slice then Slice_At slice index
          else if \<not> index < capacity slice then Inl IndexNotBelowCapacity
          else Inr (the_hole_value b))"

text \<open>
  Modelled from the spec: the fixed array belongs to the heap, which is not among the
  sources (for the spec a fixed-length output container of a required length).
  \<^verbatim>\<open>ToFixedArray\<close> writes it at \<^verbatim>\<open>array_index++\<close> only, so it is the list \<open>acc\<close> of the
  entries written so far, \<^verbatim>\<open>array_index\<close> is the length of that list, and \<open>len\<close> is
  \<^verbatim>\<open>fixed_array->length()\<close>. A write at or beyond the length is fatal, and so is a
  negative length (in \<open>ToFixedArray\<close> below).
\<close>

definition FixedArray_set :: "int \<Rightarrow> 'a list \<Rightarrow> 'a \<Rightarrow> error + 'a list" where
  "FixedArray_set len acc v =
     (if int (length acc) < len then Inr (acc @ [v]) else Inl ArrayIndexOutOfBounds)"

text \<open>
  \<^verbatim>\<open>ToFixedArray\<close>: the loop that copies a slice, the loop that pads it with holes, the
  loop over the slices, and the function.
\<close>

fun copy_loop ::
  "'a ConstantArraySlice \<Rightarrow> int \<Rightarrow> nat list \<Rightarrow> 'a list \<Rightarrow> error + 'a list" where
  "copy_loop slice len [] acc = Inr acc"
| "copy_loop slice len (i # is) acc =
     (case Slice_At slice (start_index slice + i) of
        Inl e \<Rightarrow> Inl e
      | Inr v \<Rightarrow>
          (case FixedArray_set len acc v of
             Inl e \<Rightarrow> Inl e
           | Inr acc' \<Rightarrow> copy_loop slice len is acc'))"

fun padding_loop :: "'a \<Rightarrow> int \<Rightarrow> nat \<Rightarrow> 'a list \<Rightarrow> error + 'a list" where
  "padding_loop hole len 0 acc = Inr acc"
| "padding_loop hole len (Suc n) acc =
     (case FixedArray_set len acc hole of
        Inl e \<Rightarrow> Inl e
      | Inr acc' \<Rightarrow> padding_loop hole len n acc')"

fun ToFixedArray_loop ::
  "'a \<Rightarrow> int \<Rightarrow> 'a ConstantArraySlice list \<Rightarrow> 'a list \<Rightarrow> error + 'a list" where
  "ToFixedArray_loop hole len [] acc = Inr acc"
| "ToFixedArray_loop hole len (slice # rest) acc =
     (if int (length acc) = len then Inr acc
      else if \<not> (int (length acc) = 0 \<or>
                  IsPowerOfTwo32 (static_cast_uint32_t (int (length acc))))
        then Inl ArrayIndexNotPowerOfTwo
      else if \<not> AllElementsAreUnique slice then Inl NonCanonicalDuplicate
      else
        (case copy_loop slice len [0..<slice_size slice] acc of
           Inl e \<Rightarrow> Inl e
         | Inr acc1 \<Rightarrow>
             let padding = min (nat (len - int (length acc1)))
                               (capacity slice - slice_size slice) in
             (case padding_loop hole len padding acc1 of
                Inl e \<Rightarrow> Inl e
              | Inr acc2 \<Rightarrow> ToFixedArray_loop hole len rest acc2)))"

definition ToFixedArray :: "'a ConstantArrayBuilder \<Rightarrow> error + 'a list" where
  "ToFixedArray b =
     (let len = static_cast_int (builder_size b) in
      if len < 0 then Inl InvalidArrayLength
      else
        (case ToFixedArray_loop (the_hole_value b) len (idx_slice b) [] of
           Inl e \<Rightarrow> Inl e
         | Inr fixed_array \<Rightarrow>
             if int (length fixed_array) \<noteq> len then Inl ArrayLengthMismatch
             else Inr fixed_array))"

text \<open>
  \<^verbatim>\<open>AllocateIndex\<close>: the loop over the slices; the slice that allocates is replaced by
  its updated copy.
\<close>

fun AllocateIndex_loop ::
  "'a ConstantArraySlice list \<Rightarrow> 'a \<Rightarrow> error + (nat \<times> 'a ConstantArraySlice list)" where
  "AllocateIndex_loop [] object = Inl CapacityExhausted"
| "AllocateIndex_loop (slice # rest) object =
     (if available slice > 0 then
        (case Allocate slice object of
           Inl e \<Rightarrow> Inl e
         | Inr (index, slice') \<Rightarrow> Inr (static_cast_index_t index, slice' # rest))
      else
        (case AllocateIndex_loop rest object of
           Inl e \<Rightarrow> Inl e
         | Inr (index, rest') \<Rightarrow> Inr (index, slice # rest')))"

definition AllocateIndex ::
  "'a ConstantArrayBuilder \<Rightarrow> 'a \<Rightarrow> error + (nat \<times> 'a ConstantArrayBuilder)" where
  "AllocateIndex b object =
     (case AllocateIndex_loop (idx_slice b) object of
        Inl e \<Rightarrow> Inl e
      | Inr (index, slices) \<Rightarrow> Inr (index, b\<lparr>idx_slice := slices\<rparr>))"

text \<open>\<^verbatim>\<open>AllocateEntry(Handle<Object> object)\<close>.\<close>

definition AllocateEntry ::
  "'a ConstantArrayBuilder \<Rightarrow> 'a \<Rightarrow> error + (nat \<times> 'a ConstantArrayBuilder)" where
  "AllocateEntry b object =
     (case AllocateIndex b object of
        Inl e \<Rightarrow> Inl e
      | Inr (index, b') \<Rightarrow>
          Inr (index, b'\<lparr>constants_map := (constants_map b')(object \<mapsto> index)\<rparr>))"

definition Insert ::
  "'a ConstantArrayBuilder \<Rightarrow> 'a \<Rightarrow> error + (nat \<times> 'a ConstantArrayBuilder)" where
  "Insert b object =
     (case constants_map b object of
        None \<Rightarrow> AllocateEntry b object
      | Some index \<Rightarrow> Inr (index, b))"

definition OperandSizeToSlice ::
  "'a ConstantArrayBuilder \<Rightarrow> OperandSize \<Rightarrow> error + nat" where
  "OperandSizeToSlice b os =
     (case (case os of
              kNone \<Rightarrow> Inl InvalidOperandSize
            | kByte \<Rightarrow> Inr 0
            | kShort \<Rightarrow> Inr 1
            | kQuad \<Rightarrow> Inr 2) of
        Inl e \<Rightarrow> Inl e
      | Inr k \<Rightarrow>
          if \<not> (k < length (idx_slice b) \<and> operand_size (idx_slice b ! k) = os)
          then Inl InvalidOperandSize
          else Inr k)"

text \<open>\<^verbatim>\<open>AllocateEntry()\<close>, the form without an object.\<close>

definition AllocateEntry_hole ::
  "'a ConstantArrayBuilder \<Rightarrow> error + (nat \<times> 'a ConstantArrayBuilder)" where
  "AllocateEntry_hole b = AllocateIndex b (the_hole_value b)"

definition InsertAllocatedEntry ::
  "'a ConstantArrayBuilder \<Rightarrow> nat \<Rightarrow> 'a \<Rightarrow> error + 'a ConstantArrayBuilder" where
  "InsertAllocatedEntry b index object =
     (case At b index of
        Inl e \<Rightarrow> Inl e
      | Inr v \<Rightarrow>
          if v \<noteq> the_hole_value b then Inl SlotNotHole
          else
            (case IndexToSlice b index of
               Inl e \<Rightarrow> Inl e
             | Inr k \<Rightarrow>
                 (case InsertAt (idx_slice b ! k) index object of
                    Inl e \<Rightarrow> Inl e
                  | Inr slice' \<Rightarrow> Inr (b\<lparr>idx_slice := (idx_slice b)[k := slice']\<rparr>))))"

fun CreateReservedEntry_loop ::
  "'a ConstantArraySlice list \<Rightarrow> error + (OperandSize \<times> 'a ConstantArraySlice list)" where
  "CreateReservedEntry_loop [] = Inl CapacityExhausted"
| "CreateReservedEntry_loop (slice # rest) =
     (if available slice > 0 then
        (case Reserve slice of
           Inl e \<Rightarrow> Inl e
         | Inr slice' \<Rightarrow> Inr (operand_size slice', slice' # rest))
      else
        (case CreateReservedEntry_loop rest of
           Inl e \<Rightarrow> Inl e
         | Inr (os, rest') \<Rightarrow> Inr (os, slice # rest')))"

definition CreateReservedEntry ::
  "'a ConstantArrayBuilder \<Rightarrow> error + (OperandSize \<times> 'a ConstantArrayBuilder)" where
  "CreateReservedEntry b =
     (case CreateReservedEntry_loop (idx_slice b) of
        Inl e \<Rightarrow> Inl e
      | Inr (os, slices) \<Rightarrow> Inr (os, b\<lparr>idx_slice := slices\<rparr>))"

definition DiscardReservedEntry ::
  "'a ConstantArrayBuilder \<Rightarrow> OperandSize \<Rightarrow> error + 'a ConstantArrayBuilder" where
  "DiscardReservedEntry b os =
     (case OperandSizeToSlice b os of
        Inl e \<Rightarrow> Inl e
      | Inr k \<Rightarrow>
          (case Unreserve (idx_slice b ! k) of
             Inl e \<Rightarrow> Inl e
           | Inr slice' \<Rightarrow> Inr (b\<lparr>idx_slice := (idx_slice b)[k := slice']\<rparr>)))"

definition CommitReservedEntry ::
  "'a ConstantArrayBuilder \<Rightarrow> OperandSize \<Rightarrow> 'a \<Rightarrow>
     error + (nat \<times> 'a ConstantArrayBuilder)" where
  "CommitReservedEntry b os object =
     (case DiscardReservedEntry b os of
        Inl e \<Rightarrow> Inl e
      | Inr b1 \<Rightarrow>
          (case constants_map b1 object of
             None \<Rightarrow> AllocateEntry b1 object
           | Some entry \<Rightarrow>
               (case OperandSizeToSlice b1 os of
                  Inl e \<Rightarrow> Inl e
                | Inr k \<Rightarrow>
                    if entry > max_index (idx_slice b1 ! k) then
                      (case Allocate (idx_slice b1 ! k) object of
                         Inl e \<Rightarrow> Inl e
                       | Inr (index, slice') \<Rightarrow>
                           Inr (index,
                                b1\<lparr>idx_slice := (idx_slice b1)[k := slice'],
                                   constants_map :=
                                     (constants_map b1)(object \<mapsto> static_cast_index_t index)\<rparr>))
                    else Inr (entry, b1))))"

subsection \<open>Sequences of calls\<close>

text \<open>
  The public operations that change the builder, as the bytecode generator calls them,
  and the run of a list of calls, which stops at the first fatal check.
\<close>

datatype 'a call =
    CallInsert 'a
  | CallAllocateEntry
  | CallInsertAllocatedEntry nat 'a
  | CallCreateReservedEntry
  | CallCommitReservedEntry OperandSize 'a
  | CallDiscardReservedEntry OperandSize

fun do_call :: "'a ConstantArrayBuilder \<Rightarrow> 'a call \<Rightarrow> error + 'a ConstantArrayBuilder" where
  "do_call b (CallInsert v) = map_sum id snd (Insert b v)"
| "do_call b CallAllocateEntry = map_sum id snd (AllocateEntry_hole b)"
| "do_call b (CallInsertAllocatedEntry i v) = InsertAllocatedEntry b i v"
| "do_call b CallCreateReservedEntry = map_sum id snd (CreateReservedEntry b)"
| "do_call b (CallCommitReservedEntry os v) = map_sum id snd (CommitReservedEntry b os v)"
| "do_call b (CallDiscardReservedEntry os) = DiscardReservedEntry b os"

fun run :: "'a ConstantArrayBuilder \<Rightarrow> 'a call list \<Rightarrow> error + 'a ConstantArrayBuilder" where
  "run b [] = Inr b"
| "run b (c # cs) = (case do_call b c of Inl e \<Rightarrow> Inl e | Inr b' \<Rightarrow> run b' cs)"

subsection \<open>The invariants\<close>

text \<open>The invariant of a slice: reservations and committed values fit the capacity.\<close>

definition slice_inv :: "'a ConstantArraySlice \<Rightarrow> bool" where
  "slice_inv s = (reserved s + slice_size s \<le> capacity s)"

definition slices_inv :: "'a ConstantArrayBuilder \<Rightarrow> bool" where
  "slices_inv b = list_all slice_inv (idx_slice b)"

text \<open>
  What the constructor establishes and no operation changes: three slices, over the
  ranges \<open>[0, cap0)\<close>, \<open>[cap0, cap0 + cap1)\<close> and \<open>[cap0 + cap1, cap0 + cap1 + cap2)\<close>,
  each of a positive capacity, with the operand sizes byte, short and quad. All indices
  fit \<^verbatim>\<open>index_t\<close>. A builder is well-formed when it has this layout and each slice
  satisfies its invariant; \<open>valid_capacities\<close> is the condition on the constructor's
  parameters.
\<close>

definition layout :: "'a ConstantArraySlice list \<Rightarrow> bool" where
  "layout ss =
     (length ss = 3 \<and>
      start_index (ss ! 0) = 0 \<and>
      start_index (ss ! 1) = capacity (ss ! 0) \<and>
      start_index (ss ! 2) = capacity (ss ! 0) + capacity (ss ! 1) \<and>
      0 < capacity (ss ! 0) \<and> 0 < capacity (ss ! 1) \<and> 0 < capacity (ss ! 2) \<and>
      capacity (ss ! 0) + capacity (ss ! 1) + capacity (ss ! 2) \<le> 2 ^ 32 \<and>
      operand_size (ss ! 0) = kByte \<and>
      operand_size (ss ! 1) = kShort \<and>
      operand_size (ss ! 2) = kQuad)"

definition builder_wf :: "'a ConstantArrayBuilder \<Rightarrow> bool" where
  "builder_wf b = (layout (idx_slice b) \<and> slices_inv b)"

definition valid_capacities :: "nat \<Rightarrow> nat \<Rightarrow> nat \<Rightarrow> bool" where
  "valid_capacities k8 k16 k32 =
     (0 < k8 \<and> 0 < k16 \<and> 0 < k32 \<and> k8 + k16 + k32 \<le> 2 ^ 32)"

text \<open>
  The value committed at a global index, if there is one: the index is resolved as
  \<open>IndexToSlice\<close> does and must lie below the slice's start index plus its size.
\<close>

definition slice_stored :: "'a ConstantArraySlice \<Rightarrow> nat \<Rightarrow> 'a option" where
  "slice_stored s i =
     (if start_index s \<le> i \<and> i < start_index s + slice_size s
      then Some (constants s ! (i - start_index s)) else None)"

definition stored :: "'a ConstantArrayBuilder \<Rightarrow> nat \<Rightarrow> 'a option" where
  "stored b i =
     (case IndexToSlice b i of
        Inl e \<Rightarrow> None
      | Inr k \<Rightarrow> slice_stored (idx_slice b ! k) i)"

text \<open>
  The frame of the operations: a slice keeps its range and operand size, never
  shrinks, and keeps the value at every committed position, except at the global
  indices in \<open>X\<close> (the slot that \<open>InsertAllocatedEntry\<close> fills; see \<open>fill_set\<close>).
\<close>

definition slice_extends ::
  "nat set \<Rightarrow> 'a ConstantArraySlice \<Rightarrow> 'a ConstantArraySlice \<Rightarrow> bool" where
  "slice_extends X s s' =
     (start_index s' = start_index s \<and> capacity s' = capacity s \<and>
      operand_size s' = operand_size s \<and> slice_size s \<le> slice_size s' \<and>
      (\<forall>j < slice_size s. start_index s + j \<notin> X \<longrightarrow> constants s' ! j = constants s ! j))"

definition builder_extends ::
  "nat set \<Rightarrow> 'a ConstantArrayBuilder \<Rightarrow> 'a ConstantArrayBuilder \<Rightarrow> bool" where
  "builder_extends X b b' =
     (the_hole_value b' = the_hole_value b \<and>
      list_all2 (slice_extends X) (idx_slice b) (idx_slice b'))"

definition fill_set :: "'a call \<Rightarrow> nat set" where
  "fill_set c = (case c of CallInsertAllocatedEntry i v \<Rightarrow> {i} | _ \<Rightarrow> {})"

text \<open>
  The effect of an allocation. \<open>allocated_in_narrowest b v i b'\<close>: the slices of \<open>b'\<close>
  are those of \<open>b\<close> with \<open>v\<close> appended to the first slice \<open>k\<close> that has an available
  slot, and \<open>i\<close> is the index of the new entry, which was not committed before.
\<close>

definition append_constant :: "'a ConstantArraySlice \<Rightarrow> 'a \<Rightarrow> 'a ConstantArraySlice" where
  "append_constant s v = s\<lparr>constants := constants s @ [v]\<rparr>"

definition allocated_in_narrowest ::
  "'a ConstantArrayBuilder \<Rightarrow> 'a \<Rightarrow> nat \<Rightarrow> 'a ConstantArrayBuilder \<Rightarrow> bool" where
  "allocated_in_narrowest b v i b' =
     (\<exists>k \<in> {0..<3}.
        0 < available (idx_slice b ! k) \<and>
        (\<forall>j \<in> {0..<k}. available (idx_slice b ! j) = 0) \<and>
        i = start_index (idx_slice b ! k) + slice_size (idx_slice b ! k) \<and>
        idx_slice b' = (idx_slice b)[k := append_constant (idx_slice b ! k) v] \<and>
        IndexToSlice b' i = Inr k \<and>
        stored b i = None \<and> stored b' i = Some v)"

text \<open>
  A call re-points \<open>v\<close> in the state \<open>b\<close> when it is a \<open>CommitReservedEntry\<close> of \<open>v\<close>
  made while the map registers \<open>v\<close> at an index beyond the last index of the slice of
  the operand size: this is the branch of \<open>CommitReservedEntry\<close> that allocates a second
  copy and stores its index in the map. A commit of \<open>v\<close> that reuses the registered
  index is not one, and neither is any other call. \<open>no_repoint v b cs\<close>: in the run of
  \<open>cs\<close> from \<open>b\<close> no call re-points \<open>v\<close> in the state in which it is made.
\<close>

definition repoints :: "'a \<Rightarrow> 'a ConstantArrayBuilder \<Rightarrow> 'a call \<Rightarrow> bool" where
  "repoints v b c =
     (case c of
        CallCommitReservedEntry os u \<Rightarrow>
          u = v \<and>
          (case constants_map b v of
             None \<Rightarrow> False
           | Some entry \<Rightarrow>
               (case OperandSizeToSlice b os of
                  Inl e \<Rightarrow> False
                | Inr k \<Rightarrow> entry > max_index (idx_slice b ! k)))
      | _ \<Rightarrow> False)"

fun no_repoint :: "'a \<Rightarrow> 'a ConstantArrayBuilder \<Rightarrow> 'a call list \<Rightarrow> bool" where
  "no_repoint v b [] = True"
| "no_repoint v b (c # cs) =
     (\<not> repoints v b c \<and>
      (case do_call b c of Inl e \<Rightarrow> True | Inr b' \<Rightarrow> no_repoint v b' cs))"

text \<open>
  The expected result of the serialization: the slices in order, each padded with holes
  to its capacity, cut at the size of the builder. \<open>serial_ok N ss a\<close> collects what the
  loop of \<open>ToFixedArray\<close> needs of the slices \<open>ss\<close>, the first of which starts at offset
  \<open>a\<close>, for an array of length \<open>N\<close>; \<open>aligned\<close> says that the second and third slice
  start at powers of two, which the loop checks.
\<close>

definition slice_padded :: "'a \<Rightarrow> 'a ConstantArraySlice \<Rightarrow> 'a list" where
  "slice_padded hole s = constants s @ replicate (capacity s - slice_size s) hole"

definition serialized :: "'a ConstantArrayBuilder \<Rightarrow> 'a list" where
  "serialized b =
     take (builder_size b) (concat (map (slice_padded (the_hole_value b)) (idx_slice b)))"

fun serial_ok :: "nat \<Rightarrow> 'a ConstantArraySlice list \<Rightarrow> nat \<Rightarrow> bool" where
  "serial_ok N [] a = True"
| "serial_ok N (s # rest) a =
     ((0 < slice_size s \<longrightarrow> a + slice_size s \<le> N) \<and>
      slice_size s \<le> capacity s \<and>
      (a < N \<longrightarrow> a = 0 \<or> IsPowerOfTwo32 (static_cast_uint32_t (int a))) \<and>
      serial_ok N rest (a + capacity s))"

definition aligned :: "'a ConstantArrayBuilder \<Rightarrow> bool" where
  "aligned b =
     (IsPowerOfTwo32 (capacity (idx_slice b ! 0)) \<and>
      IsPowerOfTwo32 (capacity (idx_slice b ! 0) + capacity (idx_slice b ! 1)))"

text \<open>
  The state after \<open>n\<close> insertions of new values and no reservation: the slices are
  filled in order, without gaps.
\<close>

definition packed :: "nat \<Rightarrow> nat \<Rightarrow> nat \<Rightarrow> 'a ConstantArrayBuilder \<Rightarrow> nat \<Rightarrow> bool" where
  "packed c0 c1 c2 b n =
     (map capacity (idx_slice b) = [c0, c1, c2] \<and>
      map reserved (idx_slice b) = [0, 0, 0] \<and>
      map slice_size (idx_slice b) = [min n c0, min (n - c0) c1, n - c0 - c1] \<and>
      n \<le> c0 + c1 + c2)"

text \<open>
  The index that \<open>Insert\<close> and \<open>CommitReservedEntry\<close> return after a run of calls.
\<close>

definition Insert_after :: "'a ConstantArrayBuilder \<Rightarrow> 'a call list \<Rightarrow> 'a \<Rightarrow> error + nat" where
  "Insert_after b cs v =
     (case run b cs of Inl e \<Rightarrow> Inl e | Inr b' \<Rightarrow> map_sum id fst (Insert b' v))"

definition CommitReservedEntry_after ::
  "'a ConstantArrayBuilder \<Rightarrow> 'a call list \<Rightarrow> OperandSize \<Rightarrow> 'a \<Rightarrow> error + nat" where
  "CommitReservedEntry_after b cs os v =
     (case run b cs of
        Inl e \<Rightarrow> Inl e
      | Inr b' \<Rightarrow> map_sum id fst (CommitReservedEntry b' os v))"

text \<open>The serialization and the size after a run of calls.\<close>

definition ToFixedArray_after ::
  "'a ConstantArrayBuilder \<Rightarrow> 'a call list \<Rightarrow> error + 'a list" where
  "ToFixedArray_after b cs = (case run b cs of Inl e \<Rightarrow> Inl e | Inr b' \<Rightarrow> ToFixedArray b')"

definition size_after :: "'a ConstantArrayBuilder \<Rightarrow> 'a call list \<Rightarrow> error + nat" where
  "size_after b cs = map_sum id builder_size (run b cs)"

definition At_after :: "'a ConstantArrayBuilder \<Rightarrow> 'a call list \<Rightarrow> nat \<Rightarrow> error + 'a" where
  "At_after b cs i = (case run b cs of Inl e \<Rightarrow> Inl e | Inr b' \<Rightarrow> At b' i)"

section \<open>Evaluation on concrete inputs\<close>

lemmas slice_defs = slice_size_def available_def max_index_def new_ConstantArraySlice_def
  Reserve_def Unreserve_def Allocate_def Slice_At_def InsertAt_def AllElementsAreUnique_def
  static_cast_index_t_def

lemmas builder_defs = new_ConstantArrayBuilder_def builder_size_def IndexToSlice_def At_def
  AllocateIndex_def AllocateEntry_def Insert_def OperandSizeToSlice_def AllocateEntry_hole_def
  InsertAllocatedEntry_def CreateReservedEntry_def DiscardReservedEntry_def
  CommitReservedEntry_def

section \<open>The slice invariant\<close>

lemma Reserve_inv: "Reserve s = Inr s' \<Longrightarrow> slice_inv s'"
  by (auto simp: Reserve_def slice_inv_def slice_size_def available_def Let_def
      split: if_splits)

lemma Unreserve_inv: "slice_inv s \<Longrightarrow> Unreserve s = Inr s' \<Longrightarrow> slice_inv s'"
  by (auto simp: Unreserve_def slice_inv_def slice_size_def split: if_splits)

lemma Allocate_inv: "Allocate s v = Inr (i, s') \<Longrightarrow> slice_inv s'"
  by (auto simp: Allocate_def slice_inv_def slice_size_def available_def Let_def
      split: if_splits)

lemma InsertAt_inv: "slice_inv s \<Longrightarrow> InsertAt s i v = Inr s' \<Longrightarrow> slice_inv s'"
  by (auto simp: InsertAt_def slice_inv_def slice_size_def split: if_splits)

lemma list_all_update: "list_all P xs \<Longrightarrow> P x \<Longrightarrow> list_all P (xs[k := x])"
  by (induction xs arbitrary: k) (auto split: nat.splits)

lemma list_all_nth: "list_all P xs \<Longrightarrow> k < length xs \<Longrightarrow> P (xs ! k)"
  by (simp add: list_all_length)

lemma AllocateIndex_loop_inv:
  "AllocateIndex_loop ss v = Inr (i, ss') \<Longrightarrow> list_all slice_inv ss \<Longrightarrow>
   list_all slice_inv ss'"
  by (induction ss arbitrary: i ss') (auto split: if_splits sum.splits dest: Allocate_inv)

lemma CreateReservedEntry_loop_inv:
  "CreateReservedEntry_loop ss = Inr (os, ss') \<Longrightarrow> list_all slice_inv ss \<Longrightarrow>
   list_all slice_inv ss'"
  by (induction ss arbitrary: os ss') (auto split: if_splits sum.splits dest: Reserve_inv)

lemma AllocateIndex_inv:
  "AllocateIndex b v = Inr (i, b') \<Longrightarrow> slices_inv b \<Longrightarrow> slices_inv b'"
  by (auto simp: AllocateIndex_def slices_inv_def split: sum.splits
      dest: AllocateIndex_loop_inv)

lemma AllocateEntry_inv:
  "AllocateEntry b v = Inr (i, b') \<Longrightarrow> slices_inv b \<Longrightarrow> slices_inv b'"
  by (auto simp: AllocateEntry_def slices_inv_def split: sum.splits
      dest: AllocateIndex_inv)

lemma Insert_inv: "Insert b v = Inr (i, b') \<Longrightarrow> slices_inv b \<Longrightarrow> slices_inv b'"
  by (auto simp: Insert_def split: option.splits dest: AllocateEntry_inv)

lemma OperandSizeToSlice_less:
  "OperandSizeToSlice b os = Inr k \<Longrightarrow> k < length (idx_slice b)"
  by (auto simp: OperandSizeToSlice_def split: sum.splits if_splits)

lemma IndexToSlice_loop_less:
  "IndexToSlice_loop ss i k0 = Inr k \<Longrightarrow> k0 \<le> k \<and> k < k0 + length ss"
  by (induction ss arbitrary: k0) (fastforce split: if_splits)+

lemma IndexToSlice_less: "IndexToSlice b i = Inr k \<Longrightarrow> k < length (idx_slice b)"
  using IndexToSlice_loop_less[of "idx_slice b" i 0 k] by (simp add: IndexToSlice_def)

lemma DiscardReservedEntry_inv:
  "DiscardReservedEntry b os = Inr b' \<Longrightarrow> slices_inv b \<Longrightarrow> slices_inv b'"
  by (auto simp: DiscardReservedEntry_def slices_inv_def split: sum.splits
      intro!: list_all_update dest!: OperandSizeToSlice_less
      elim!: Unreserve_inv[rotated] intro: list_all_nth)

lemma InsertAllocatedEntry_inv:
  "InsertAllocatedEntry b i v = Inr b' \<Longrightarrow> slices_inv b \<Longrightarrow> slices_inv b'"
  by (auto simp: InsertAllocatedEntry_def slices_inv_def split: sum.splits if_splits
      intro!: list_all_update dest!: IndexToSlice_less
      elim!: InsertAt_inv[rotated] intro: list_all_nth)

lemma CreateReservedEntry_inv:
  "CreateReservedEntry b = Inr (os, b') \<Longrightarrow> slices_inv b \<Longrightarrow> slices_inv b'"
  by (auto simp: CreateReservedEntry_def slices_inv_def split: sum.splits
      dest: CreateReservedEntry_loop_inv)

lemma CommitReservedEntry_inv:
  "CommitReservedEntry b os v = Inr (i, b') \<Longrightarrow> slices_inv b \<Longrightarrow> slices_inv b'"
  apply (auto simp: CommitReservedEntry_def split: sum.splits option.splits if_splits
      dest: DiscardReservedEntry_inv AllocateEntry_inv)
  apply (auto simp: slices_inv_def intro!: list_all_update
      dest: DiscardReservedEntry_inv[unfolded slices_inv_def] Allocate_inv)
  done

lemma do_call_inv: "do_call b c = Inr b' \<Longrightarrow> slices_inv b \<Longrightarrow> slices_inv b'"
  by (cases c) (auto simp: map_sum_def AllocateEntry_hole_def split: sum.splits
      dest: Insert_inv AllocateIndex_inv InsertAllocatedEntry_inv CreateReservedEntry_inv
        CommitReservedEntry_inv DiscardReservedEntry_inv)

lemma run_inv: "run b cs = Inr b' \<Longrightarrow> slices_inv b \<Longrightarrow> slices_inv b'"
  by (induction cs arbitrary: b) (auto split: sum.splits dest: do_call_inv)

lemma new_inv: "slices_inv (new_ConstantArrayBuilder c0 c1 c2 hole)"
  by (simp add: slices_inv_def new_ConstantArrayBuilder_def new_ConstantArraySlice_def
      slice_inv_def slice_size_def)

text \<open>
  Claim C9. In a slice the outstanding reservations and the committed values together
  never exceed the capacity: \<open>Reserve\<close>, \<open>Unreserve\<close>, \<open>Allocate\<close> and \<open>InsertAt\<close> keep
  \<open>slice_inv\<close> whenever their checks pass, every call of a builder operation keeps it for
  all slices of the builder, it holds of the new builder, and so it holds in every state
  that a sequence of calls reaches from the new builder.
\<close>

theorem slice_invariant_preserved:
  "(slice_inv s \<longrightarrow> Reserve s = Inr sr \<longrightarrow> slice_inv sr) \<and>
   (slice_inv s \<longrightarrow> Unreserve s = Inr su \<longrightarrow> slice_inv su) \<and>
   (slice_inv s \<longrightarrow> Allocate s v = Inr (i, sa) \<longrightarrow> slice_inv sa) \<and>
   (slice_inv s \<longrightarrow> InsertAt s j v = Inr si \<longrightarrow> slice_inv si) \<and>
   (slices_inv b \<longrightarrow> do_call b c = Inr b' \<longrightarrow> slices_inv b') \<and>
   slices_inv (new_ConstantArrayBuilder k8 k16 k32 hole) \<and>
   (run (new_ConstantArrayBuilder k8 k16 k32 hole) cs = Inr br \<longrightarrow>
      (\<forall>slice \<in> set (idx_slice br).
         reserved slice + slice_size slice \<le> capacity slice))"
proof -
  have 1: "Reserve s = Inr sr \<Longrightarrow> slice_inv sr"
    by (rule Reserve_inv)
  have 2: "slice_inv s \<Longrightarrow> Unreserve s = Inr su \<Longrightarrow> slice_inv su"
    by (rule Unreserve_inv)
  have 3: "Allocate s v = Inr (i, sa) \<Longrightarrow> slice_inv sa"
    by (rule Allocate_inv)
  have 4: "slice_inv s \<Longrightarrow> InsertAt s j v = Inr si \<Longrightarrow> slice_inv si"
    by (rule InsertAt_inv)
  have 5: "slices_inv b \<Longrightarrow> do_call b c = Inr b' \<Longrightarrow> slices_inv b'"
    by (rule do_call_inv)
  have 6: "slices_inv (new_ConstantArrayBuilder k8 k16 k32 hole)"
    by (rule new_inv)
  have 7: "\<forall>slice \<in> set (idx_slice br).
         reserved slice + slice_size slice \<le> capacity slice"
    if "run (new_ConstantArrayBuilder k8 k16 k32 hole) cs = Inr br"
    using run_inv[OF that new_inv]
    by (simp add: slices_inv_def list_all_iff slice_inv_def)
  from 1 2 3 4 5 6 7 show ?thesis
    by blast
qed

theorem slice_invariant_preserved_witness:
  "slice_inv (new_ConstantArraySlice 0 2 kByte :: nat ConstantArraySlice) \<and>
   (case Reserve (new_ConstantArraySlice 0 2 kByte :: nat ConstantArraySlice) of
      Inl e \<Rightarrow> False | Inr sr \<Rightarrow> slice_inv sr) \<and>
   (case run (new_ConstantArrayBuilder 4 4 8 (0::nat))
           [CallCreateReservedEntry, CallInsert 7, CallCommitReservedEntry kByte 9,
            CallAllocateEntry, CallInsertAllocatedEntry 2 5] of
      Inl e \<Rightarrow> False
    | Inr b \<Rightarrow> \<forall>slice \<in> set (idx_slice b).
        reserved slice + slice_size slice \<le> capacity slice)"
proof -
  let ?s = "new_ConstantArraySlice 0 2 kByte :: nat ConstantArraySlice"
  let ?cs = "[CallCreateReservedEntry, CallInsert 7, CallCommitReservedEntry kByte 9,
            CallAllocateEntry, CallInsertAllocatedEntry 2 (5::nat)]"
  let ?r = "run (new_ConstantArrayBuilder 4 4 8 (0::nat)) ?cs"
  have "case Reserve ?s of Inl e \<Rightarrow> False | Inr sr \<Rightarrow> True"
    by (simp add: slice_defs)
  then obtain sr where sr: "Reserve ?s = Inr sr"
    by (cases "Reserve ?s") simp_all
  have "case ?r of Inl e \<Rightarrow> False | Inr b \<Rightarrow> True"
    by (simp add: slice_defs builder_defs)
  then obtain b where b: "?r = Inr b"
    by (cases ?r) (simp_all del: run.simps)
  have s: "slice_inv ?s"
    by (simp add: slice_inv_def slice_defs)
  have "slice_inv sr \<and>
    (\<forall>slice \<in> set (idx_slice b). reserved slice + slice_size slice \<le> capacity slice)"
    using slice_invariant_preserved[where s = ?s
        and sr = sr and ?k8.0 = 4 and ?k16.0 = 4 and ?k32.0 = 8 and hole = 0 and br = b
        and cs = ?cs] s sr b
    by blast
  then show ?thesis
    using s by (simp add: sr b del: run.simps)
qed

section \<open>The frame of the operations\<close>

lemma slice_extends_refl: "slice_extends X s s"
  by (simp add: slice_extends_def)

lemma slice_extends_trans:
  "slice_extends X s s' \<Longrightarrow> slice_extends X s' s'' \<Longrightarrow> slice_extends X s s''"
  by (auto simp: slice_extends_def)

lemma slice_extends_mono: "slice_extends X s s' \<Longrightarrow> X \<subseteq> Y \<Longrightarrow> slice_extends Y s s'"
  by (auto simp: slice_extends_def)

lemma list_all2_extends_refl: "list_all2 (slice_extends X) ss ss"
  by (simp add: list_all2_refl slice_extends_refl)

lemma list_all2_extends_update:
  "slice_extends X (ss ! k) s' \<Longrightarrow> list_all2 (slice_extends X) ss (ss[k := s'])"
proof -
  assume a: "slice_extends X (ss ! k) s'"
  have "slice_extends X (ss ! i) (ss[k := s'] ! i)" if "i < length ss" for i
    using that a by (cases "i = k") (simp_all add: slice_extends_refl)
  then show ?thesis
    by (simp add: list_all2_conv_all_nth)
qed

lemma builder_extends_refl: "builder_extends X b b"
  by (simp add: builder_extends_def list_all2_extends_refl)

lemma builder_extends_trans:
  "builder_extends X b b' \<Longrightarrow> builder_extends X b' b'' \<Longrightarrow> builder_extends X b b''"
  unfolding builder_extends_def
  using list_all2_trans[of "slice_extends X" "slice_extends X" "slice_extends X",
      OF slice_extends_trans]
  by auto

lemma builder_extends_mono:
  "builder_extends X b b' \<Longrightarrow> X \<subseteq> Y \<Longrightarrow> builder_extends Y b b'"
  unfolding builder_extends_def
  using list_all2_mono[of "slice_extends X" _ _ "slice_extends Y"] slice_extends_mono
  by blast

lemma Reserve_extends: "Reserve s = Inr s' \<Longrightarrow> slice_extends X s s'"
  by (auto simp: Reserve_def slice_extends_def slice_size_def Let_def split: if_splits)

lemma Unreserve_extends: "Unreserve s = Inr s' \<Longrightarrow> slice_extends X s s'"
  by (auto simp: Unreserve_def slice_extends_def slice_size_def split: if_splits)

lemma Allocate_extends: "Allocate s v = Inr (i, s') \<Longrightarrow> slice_extends X s s'"
  by (auto simp: Allocate_def slice_extends_def slice_size_def Let_def nth_append
      split: if_splits)

lemma InsertAt_extends: "InsertAt s i v = Inr s' \<Longrightarrow> slice_extends {i} s s'"
  by (auto simp: InsertAt_def slice_extends_def slice_size_def split: if_splits)

lemma AllocateIndex_loop_extends:
  "AllocateIndex_loop ss v = Inr (i, ss') \<Longrightarrow> list_all2 (slice_extends X) ss ss'"
  by (induction ss arbitrary: i ss')
    (auto split: if_splits sum.splits dest: Allocate_extends
      simp: list_all2_extends_refl slice_extends_refl)

lemma CreateReservedEntry_loop_extends:
  "CreateReservedEntry_loop ss = Inr (os, ss') \<Longrightarrow> list_all2 (slice_extends X) ss ss'"
  by (induction ss arbitrary: os ss')
    (auto split: if_splits sum.splits dest: Reserve_extends
      simp: list_all2_extends_refl slice_extends_refl)

lemma AllocateIndex_extends:
  "AllocateIndex b v = Inr (i, b') \<Longrightarrow> builder_extends X b b'"
  by (auto simp: AllocateIndex_def builder_extends_def split: sum.splits
      dest: AllocateIndex_loop_extends)

lemma AllocateEntry_extends:
  "AllocateEntry b v = Inr (i, b') \<Longrightarrow> builder_extends X b b'"
  by (auto simp: AllocateEntry_def split: sum.splits
      dest!: AllocateIndex_extends[where X = X] simp: builder_extends_def)

lemma Insert_extends: "Insert b v = Inr (i, b') \<Longrightarrow> builder_extends X b b'"
  by (auto simp: Insert_def builder_extends_refl split: option.splits
      dest: AllocateEntry_extends)

lemma CreateReservedEntry_extends:
  "CreateReservedEntry b = Inr (os, b') \<Longrightarrow> builder_extends X b b'"
  by (auto simp: CreateReservedEntry_def builder_extends_def split: sum.splits
      dest: CreateReservedEntry_loop_extends)

lemma DiscardReservedEntry_extends:
  "DiscardReservedEntry b os = Inr b' \<Longrightarrow> builder_extends X b b'"
  by (auto simp: DiscardReservedEntry_def builder_extends_def split: sum.splits
      intro!: list_all2_extends_update dest: Unreserve_extends)

lemma InsertAllocatedEntry_extends:
  "InsertAllocatedEntry b i v = Inr b' \<Longrightarrow> builder_extends {i} b b'"
  by (auto simp: InsertAllocatedEntry_def builder_extends_def split: sum.splits if_splits
      intro!: list_all2_extends_update dest: InsertAt_extends)

lemma CommitReservedEntry_extends:
  assumes "CommitReservedEntry b os v = Inr (i, b')"
  shows "builder_extends X b b'"
proof -
  from assms obtain b1 where b1: "DiscardReservedEntry b os = Inr b1"
    by (auto simp: CommitReservedEntry_def split: sum.splits)
  have "builder_extends X b1 b'"
    using assms b1
    by (auto simp: CommitReservedEntry_def builder_extends_refl
        split: sum.splits option.splits if_splits dest: AllocateEntry_extends)
      (auto simp: builder_extends_def intro!: list_all2_extends_update
        dest: Allocate_extends)
  with DiscardReservedEntry_extends[OF b1] show ?thesis
    by (rule builder_extends_trans)
qed

section \<open>Well-formed builders\<close>

lemma length3E:
  assumes "length ss = 3"
  obtains s0 s1 s2 where "ss = [s0, s1, s2]"
  using assms by (auto simp: numeral_3_eq_3 length_Suc_conv)

lemma layout3:
  "layout [s0, s1, s2] =
     (start_index s0 = 0 \<and> start_index s1 = capacity s0 \<and>
      start_index s2 = capacity s0 + capacity s1 \<and>
      0 < capacity s0 \<and> 0 < capacity s1 \<and> 0 < capacity s2 \<and>
      capacity s0 + capacity s1 + capacity s2 \<le> 2 ^ 32 \<and>
      operand_size s0 = kByte \<and> operand_size s1 = kShort \<and> operand_size s2 = kQuad)"
  by (simp add: layout_def)

lemma layoutE:
  assumes "layout ss"
  obtains s0 s1 s2 where "ss = [s0, s1, s2]" "layout [s0, s1, s2]"
  using assms length3E[of ss] by (metis layout_def)

lemma wfE:
  assumes "builder_wf b"
  obtains s0 s1 s2 where "idx_slice b = [s0, s1, s2]" "layout [s0, s1, s2]"
    "slice_inv s0" "slice_inv s1" "slice_inv s2"
proof -
  from assms have l: "layout (idx_slice b)" and i: "list_all slice_inv (idx_slice b)"
    by (simp_all add: builder_wf_def slices_inv_def)
  from l obtain s0 s1 s2 where ss: "idx_slice b = [s0, s1, s2]" "layout [s0, s1, s2]"
    by (rule layoutE)
  with i that show ?thesis
    by simp
qed

lemma layout_extends:
  assumes "list_all2 (slice_extends X) ss ss'" "layout ss"
  shows "layout ss'"
proof -
  from assms(2) obtain s0 s1 s2 where ss: "ss = [s0, s1, s2]" and l: "layout [s0, s1, s2]"
    by (rule layoutE)
  from assms(1) ss obtain t0 t1 t2 where ss': "ss' = [t0, t1, t2]"
    and e: "slice_extends X s0 t0" "slice_extends X s1 t1" "slice_extends X s2 t2"
    by (auto simp: list_all2_Cons1)
  show ?thesis
    using l e unfolding ss' layout3 slice_extends_def by simp
qed

lemma do_call_extends: "do_call b c = Inr b' \<Longrightarrow> builder_extends (fill_set c) b b'"
  by (cases c)
    (auto simp: map_sum_def AllocateEntry_hole_def fill_set_def split: sum.splits
      dest: Insert_extends AllocateIndex_extends InsertAllocatedEntry_extends
        CreateReservedEntry_extends CommitReservedEntry_extends DiscardReservedEntry_extends)

lemma do_call_wf: "do_call b c = Inr b' \<Longrightarrow> builder_wf b \<Longrightarrow> builder_wf b'"
  using do_call_extends[of b c b'] do_call_inv[of b c b']
  by (auto simp: builder_wf_def builder_extends_def dest: layout_extends)

lemma run_wf: "run b cs = Inr b' \<Longrightarrow> builder_wf b \<Longrightarrow> builder_wf b'"
  by (induction cs arbitrary: b) (auto split: sum.splits dest: do_call_wf)

lemma new_wf:
  "valid_capacities k8 k16 k32 \<Longrightarrow> builder_wf (new_ConstantArrayBuilder k8 k16 k32 hole)"
  by (simp add: builder_wf_def new_inv)
    (simp add: new_ConstantArrayBuilder_def layout3 new_ConstantArraySlice_def
      valid_capacities_def)

lemma reachable_wf:
  "valid_capacities k8 k16 k32 \<Longrightarrow>
   run (new_ConstantArrayBuilder k8 k16 k32 hole) cs = Inr b \<Longrightarrow> builder_wf b"
  by (erule run_wf[OF _ new_wf])

lemma run_extends:
  "run b cs = Inr b' \<Longrightarrow> builder_extends (\<Union>c \<in> set cs. fill_set c) b b'"
proof (induction cs arbitrary: b)
  case Nil
  then show ?case by (simp add: builder_extends_refl)
next
  case (Cons c cs)
  then obtain b1 where 1: "do_call b c = Inr b1" and 2: "run b1 cs = Inr b'"
    by (auto split: sum.splits)
  have "builder_extends (\<Union>c \<in> set (c # cs). fill_set c) b b1"
    by (rule builder_extends_mono[OF do_call_extends[OF 1]]) auto
  moreover have "builder_extends (\<Union>c \<in> set (c # cs). fill_set c) b1 b'"
    by (rule builder_extends_mono[OF Cons.IH[OF 2]]) auto
  ultimately show ?case
    by (rule builder_extends_trans)
qed

text \<open>IndexToSlice under the layout\<close>

section \<open>Resolving an index\<close>

lemma max_index_less:
  "0 < capacity s \<Longrightarrow> (i \<le> max_index s) = (i < start_index s + capacity s)"
  by (auto simp: max_index_def)

lemma IndexToSlice3:
  "layout [s0, s1, s2] \<Longrightarrow>
   IndexToSlice_loop [s0, s1, s2] i 0 =
     (if i < capacity s0 then Inr 0
      else if i < capacity s0 + capacity s1 then Inr 1
      else if i < capacity s0 + capacity s1 + capacity s2 then Inr 2
      else Inl NoSliceForIndex)"
  by (simp add: layout3 max_index_less)

lemma IndexToSlice_layout:
  assumes "layout (idx_slice b)"
  shows "IndexToSlice b i = Inr k \<longleftrightarrow>
     (k < 3 \<and> start_index (idx_slice b ! k) \<le> i \<and>
      i < start_index (idx_slice b ! k) + capacity (idx_slice b ! k))"
proof -
  from assms obtain s0 s1 s2 where ss: "idx_slice b = [s0, s1, s2]"
    and l: "layout [s0, s1, s2]"
    by (rule layoutE)
  have st: "start_index s0 = 0" "start_index s1 = capacity s0"
    "start_index s2 = capacity s0 + capacity s1"
    using l by (simp_all add: layout3)
  consider "k = 0" | "k = 1" | "k = 2" | "3 \<le> k"
    by linarith
  then show ?thesis
  proof cases
    case 1
    then show ?thesis
      using st unfolding IndexToSlice_def ss IndexToSlice3[OF l] by simp
  next
    case 2
    then show ?thesis
      using st unfolding IndexToSlice_def ss IndexToSlice3[OF l] by auto
  next
    case 3
    then show ?thesis
      using st unfolding IndexToSlice_def ss IndexToSlice3[OF l] by auto
  next
    case 4
    then show ?thesis
      unfolding IndexToSlice_def ss IndexToSlice3[OF l] by (auto split: if_splits)
  qed
qed

lemma IndexToSlice_total:
  assumes "layout (idx_slice b)"
    and "i < capacity (idx_slice b ! 0) + capacity (idx_slice b ! 1) + capacity (idx_slice b ! 2)"
  shows "\<exists>k. IndexToSlice b i = Inr k"
proof -
  from assms obtain s0 s1 s2 where ss: "idx_slice b = [s0, s1, s2]"
    and l: "layout [s0, s1, s2]"
    by (auto elim: layoutE)
  show ?thesis
    using assms(2) unfolding IndexToSlice_def ss IndexToSlice3[OF l]
    by simp
qed

lemma max_index_extends: "slice_extends X s t \<Longrightarrow> max_index t = max_index s"
  by (simp add: slice_extends_def max_index_def)

lemma IndexToSlice_extends:
  assumes "builder_extends X b b'" "layout (idx_slice b)"
  shows "IndexToSlice b' i = IndexToSlice b i"
proof -
  from assms(2) obtain s0 s1 s2 where ss: "idx_slice b = [s0, s1, s2]"
    by (auto elim: layoutE)
  from assms(1) ss obtain t0 t1 t2 where ss': "idx_slice b' = [t0, t1, t2]"
    and e: "slice_extends X s0 t0" "slice_extends X s1 t1" "slice_extends X s2 t2"
    by (auto simp: list_all2_Cons1 builder_extends_def)
  show ?thesis
    using e[THEN max_index_extends] by (simp add: IndexToSlice_def ss ss')
qed

lemma At_stored:
  assumes "builder_wf b"
  shows "At b i =
     (case IndexToSlice b i of
        Inl e \<Rightarrow> Inl e
      | Inr k \<Rightarrow>
         (case slice_stored (idx_slice b ! k) i of
            Some v \<Rightarrow> Inr v
          | None \<Rightarrow>
             if i < capacity (idx_slice b ! k) then Inr (the_hole_value b)
             else Inl IndexNotBelowCapacity))"
proof (cases "IndexToSlice b i")
  case (Inl e)
  then show ?thesis by (simp add: At_def)
next
  case (Inr k)
  from assms have l: "layout (idx_slice b)"
    by (simp add: builder_wf_def)
  from Inr have "start_index (idx_slice b ! k) \<le> i"
    by (simp add: IndexToSlice_layout[OF l])
  then show ?thesis
    using Inr by (simp add: At_def Let_def slice_stored_def Slice_At_def)
qed

lemma At_stored_Some: "builder_wf b \<Longrightarrow> stored b i = Some v \<Longrightarrow> At b i = Inr v"
  by (auto simp: At_stored stored_def split: sum.splits)

lemma slice_stored_extends:
  "slice_extends X s s' \<Longrightarrow> i \<notin> X \<Longrightarrow> slice_stored s i = Some v \<Longrightarrow>
   slice_stored s' i = Some v"
  by (auto simp: slice_stored_def slice_extends_def split: if_splits)

lemma stored_extends:
  assumes "builder_extends X b b'" "layout (idx_slice b)" "i \<notin> X" "stored b i = Some v"
  shows "stored b' i = Some v"
proof -
  from assms(4) obtain k where k: "IndexToSlice b i = Inr k"
    and s: "slice_stored (idx_slice b ! k) i = Some v"
    by (auto simp: stored_def split: sum.splits)
  from k have "k < length (idx_slice b)"
    by (rule IndexToSlice_less)
  with assms(1) have "slice_extends X (idx_slice b ! k) (idx_slice b' ! k)"
    by (simp add: builder_extends_def list_all2_conv_all_nth)
  from slice_stored_extends[OF this assms(3) s] show ?thesis
    by (simp add: stored_def IndexToSlice_extends[OF assms(1,2)] k)
qed

section \<open>Allocation\<close>

lemma Allocate_result:
  "Allocate s v = Inr (i, s') \<Longrightarrow>
   i = slice_size s + start_index s \<and> s' = append_constant s v \<and>
   slice_size s < capacity s \<and> 0 < available s"
  by (auto simp: Allocate_def Let_def slice_size_def append_constant_def split: if_splits)

lemma Allocate_succeeds:
  "0 < available s \<Longrightarrow>
   Allocate s v = Inr (slice_size s + start_index s, append_constant s v)"
  by (auto simp: Allocate_def Let_def slice_size_def append_constant_def available_def)

lemma AllocateIndex_loop_narrowest:
  "AllocateIndex_loop ss v = Inr (i, ss') \<Longrightarrow>
   \<exists>k < length ss. 0 < available (ss ! k) \<and> (\<forall>j < k. available (ss ! j) = 0) \<and>
     i = static_cast_index_t (slice_size (ss ! k) + start_index (ss ! k)) \<and>
     ss' = ss[k := append_constant (ss ! k) v]"
proof (induction ss arbitrary: i ss')
  case Nil
  then show ?case by simp
next
  case (Cons s ss)
  show ?case
  proof (cases "0 < available s")
    case True
    with Cons.prems Allocate_succeeds[OF True, of v]
    have "i = static_cast_index_t (slice_size s + start_index s)"
      "ss' = append_constant s v # ss"
      by auto
    with True show ?thesis
      by (intro exI[of _ 0]) simp
  next
    case False
    with Cons.prems obtain rest' where r: "AllocateIndex_loop ss v = Inr (i, rest')"
      and ss': "ss' = s # rest'"
      by (auto split: sum.splits)
    from Cons.IH[OF r] obtain k where k: "k < length ss" "0 < available (ss ! k)"
      "\<forall>j < k. available (ss ! j) = 0"
      "i = static_cast_index_t (slice_size (ss ! k) + start_index (ss ! k))"
      "rest' = ss[k := append_constant (ss ! k) v]"
      by blast
    have "\<forall>j < Suc k. available ((s # ss) ! j) = 0"
      using k(3) False by (auto simp: less_Suc_eq_0_disj)
    with k ss' show ?thesis
      by (intro exI[of _ "Suc k"]) simp
  qed
qed

lemma AllocateIndex_loop_succeeds:
  "k < length ss \<Longrightarrow> 0 < available (ss ! k) \<Longrightarrow>
   \<exists>i ss'. AllocateIndex_loop ss v = Inr (i, ss')"
proof (induction ss arbitrary: k)
  case Nil
  then show ?case by simp
next
  case (Cons s ss)
  show ?case
  proof (cases "0 < available s")
    case True
    then show ?thesis
      by (simp add: Allocate_succeeds)
  next
    case False
    with Cons.prems obtain k' where "k = Suc k'"
      by (cases k) auto
    with Cons.prems Cons.IH[of k'] False show ?thesis
      by auto
  qed
qed

lemma AllocateIndex_loop_exhausted:
  "list_all (\<lambda>s. available s = 0) ss \<Longrightarrow> AllocateIndex_loop ss v = Inl CapacityExhausted"
  by (induction ss) auto

text \<open>The slot that an allocation in slice k fills.\<close>

lemma allocated_slot:
  assumes wf: "builder_wf b" and k: "k < 3"
    and free: "slice_size (idx_slice b ! k) < capacity (idx_slice b ! k)"
    and b': "idx_slice b' = (idx_slice b)[k := append_constant (idx_slice b ! k) v]"
  defines "i \<equiv> start_index (idx_slice b ! k) + slice_size (idx_slice b ! k)"
  shows "IndexToSlice b i = Inr k" "IndexToSlice b' i = Inr k"
    "stored b i = None" "stored b' i = Some v" "i < 2 ^ 32"
proof -
  from wf have l: "layout (idx_slice b)"
    by (simp add: builder_wf_def)
  then have len: "length (idx_slice b) = 3"
    by (simp add: layout_def)
  have ext: "list_all2 (slice_extends {}) (idx_slice b) (idx_slice b')"
    unfolding b'
    by (rule list_all2_extends_update)
      (simp add: slice_extends_def append_constant_def slice_size_def nth_append)
  then have l': "layout (idx_slice b')"
    using l by (rule layout_extends)
  show 1: "IndexToSlice b i = Inr k"
    using k free by (simp add: IndexToSlice_layout[OF l] i_def)
  have nth: "idx_slice b' ! k = append_constant (idx_slice b ! k) v"
    using k len by (simp add: b')
  show 2: "IndexToSlice b' i = Inr k"
    using k free
    by (simp add: IndexToSlice_layout[OF l'] nth i_def append_constant_def)
  show "stored b i = None"
    using 1 by (simp add: stored_def slice_stored_def i_def)
  show "stored b' i = Some v"
    using 2 by (simp add: stored_def nth slice_stored_def i_def append_constant_def
        slice_size_def)
  from l obtain s0 s1 s2 where ss: "idx_slice b = [s0, s1, s2]" and l3: "layout [s0, s1, s2]"
    by (rule layoutE)
  consider "k = 0" | "k = 1" | "k = 2"
    using k by linarith
  then show "i < 2 ^ 32"
    using l3 free unfolding layout3 i_def ss
    by cases simp_all
qed

lemma AllocateIndex_narrowest:
  assumes wf: "builder_wf b" and a: "AllocateIndex b v = Inr (i, b')"
  shows "allocated_in_narrowest b v i b'"
proof -
  from a obtain ss' where loop: "AllocateIndex_loop (idx_slice b) v = Inr (i, ss')"
    and b': "b' = b\<lparr>idx_slice := ss'\<rparr>"
    by (auto simp: AllocateIndex_def split: sum.splits)
  from wf have len: "length (idx_slice b) = 3"
    by (simp add: builder_wf_def layout_def)
  from AllocateIndex_loop_narrowest[OF loop] len obtain k where k: "k < 3"
    "0 < available (idx_slice b ! k)" "\<forall>j < k. available (idx_slice b ! j) = 0"
    "i = static_cast_index_t (slice_size (idx_slice b ! k) + start_index (idx_slice b ! k))"
    "ss' = (idx_slice b)[k := append_constant (idx_slice b ! k) v]"
    by auto
  from k(2) have free: "slice_size (idx_slice b ! k) < capacity (idx_slice b ! k)"
    by (simp add: available_def)
  have ss': "idx_slice b' = (idx_slice b)[k := append_constant (idx_slice b ! k) v]"
    by (simp add: b' k(5))
  note slot = allocated_slot[OF wf k(1) free ss']
  have i: "i = start_index (idx_slice b ! k) + slice_size (idx_slice b ! k)"
    using slot(5) by (simp add: k(4) static_cast_index_t_def add.commute)
  show ?thesis
    unfolding allocated_in_narrowest_def
    using k(1,2,3) i ss' slot(2,3,4)
    by (intro bexI[of _ k]) (simp_all add: i)
qed

lemma AllocateIndex_succeeds:
  assumes "builder_wf b" "k < 3" "0 < available (idx_slice b ! k)"
  shows "\<exists>i b'. AllocateIndex b v = Inr (i, b')"
proof -
  from assms(1) have "length (idx_slice b) = 3"
    by (simp add: builder_wf_def layout_def)
  with AllocateIndex_loop_succeeds[of k "idx_slice b" v] assms(2,3)
  show ?thesis
    by (auto simp: AllocateIndex_def)
qed

lemma IndexToSlice_map [simp]:
  "IndexToSlice (b\<lparr>constants_map := m\<rparr>) i = IndexToSlice b i"
  by (simp add: IndexToSlice_def)

lemma stored_map [simp]: "stored (b\<lparr>constants_map := m\<rparr>) i = stored b i"
  by (simp add: stored_def split: sum.splits)

lemma allocated_in_narrowest_map:
  "allocated_in_narrowest b v i b' \<Longrightarrow>
   allocated_in_narrowest b v i (b'\<lparr>constants_map := m\<rparr>)"
  by (simp add: allocated_in_narrowest_def)

lemma Insert_narrowest:
  assumes wf: "builder_wf b" and n: "constants_map b v = None"
    and ins: "Insert b v = Inr (i, b')"
  shows "allocated_in_narrowest b v i b'"
proof -
  from n ins obtain b1 where b1: "AllocateIndex b v = Inr (i, b1)"
    and b': "b' = b1\<lparr>constants_map := (constants_map b1)(v \<mapsto> i)\<rparr>"
    by (auto simp: Insert_def AllocateEntry_def split: sum.splits)
  show ?thesis
    unfolding b'
    by (rule allocated_in_narrowest_map[OF AllocateIndex_narrowest[OF wf b1]])
qed

lemma AllocateIndex_map:
  "AllocateIndex b u = Inr (i, b') \<Longrightarrow> constants_map b' = constants_map b"
  by (auto simp: AllocateIndex_def split: sum.splits)

lemma AllocateIndex_exhausted:
  assumes wf: "builder_wf b" and z: "\<forall>k \<in> {0..<3}. available (idx_slice b ! k) = 0"
  shows "AllocateIndex b v = Inl CapacityExhausted"
proof -
  from wf obtain s0 s1 s2 where ss: "idx_slice b = [s0, s1, s2]"
    by (rule wfE)
  from z have "available s0 = 0" "available s1 = 0" "available s2 = 0"
    unfolding ss by (auto dest: bspec[of _ _ 0] bspec[of _ _ 1] bspec[of _ _ 2])
  then show ?thesis
    by (simp add: AllocateIndex_def ss)
qed

text \<open>
  Claim C4. In a well-formed builder in which some slice has an available slot, every
  new allocation succeeds and lands in the first slice \<open>k\<close> whose \<open>available\<close> count is
  not zero: for \<open>AllocateIndex\<close>, for \<open>Insert\<close> of an identity that the map does not
  hold (which also registers the new index), and for the \<open>AllocateEntry\<close> without an
  object (which leaves the map as it is), all slices before \<open>k\<close> have no available slot,
  the new index is the next free one of slice \<open>k\<close>, and only that slice changes. When
  no slice has an available slot, the three operations are fatal. (The one other
  allocation, in \<open>CommitReservedEntry\<close> of an identity registered beyond the reserved
  slice, calls \<open>Allocate\<close> on the reserved slice and not \<open>AllocateIndex\<close>.)
\<close>

theorem new_allocation_in_narrowest_tier:
  assumes wf: "builder_wf b"
  shows
    "((\<exists>k \<in> {0..<3}. 0 < available (idx_slice b ! k)) \<longrightarrow>
        (\<exists>j c. AllocateIndex b v = Inr (j, c) \<and> allocated_in_narrowest b v j c) \<and>
        (constants_map b v = None \<longrightarrow>
           (\<exists>j c. Insert b v = Inr (j, c) \<and> allocated_in_narrowest b v j c \<and>
                  constants_map c = (constants_map b)(v \<mapsto> j))) \<and>
        (\<exists>j c. AllocateEntry_hole b = Inr (j, c) \<and>
               allocated_in_narrowest b (the_hole_value b) j c \<and>
               constants_map c = constants_map b)) \<and>
     ((\<forall>k \<in> {0..<3}. available (idx_slice b ! k) = 0) \<longrightarrow>
        AllocateIndex b v = Inl CapacityExhausted \<and>
        (constants_map b v = None \<longrightarrow> Insert b v = Inl CapacityExhausted) \<and>
        AllocateEntry_hole b = Inl CapacityExhausted) \<and>
     (AllocateIndex b v = Inr (i, b') \<longrightarrow> allocated_in_narrowest b v i b') \<and>
     (constants_map b v = None \<longrightarrow> Insert b v = Inr (i, b') \<longrightarrow>
        allocated_in_narrowest b v i b') \<and>
     (AllocateEntry_hole b = Inr (i, b') \<longrightarrow>
        allocated_in_narrowest b (the_hole_value b) i b')"
proof -
  have ok: "\<exists>j c. AllocateIndex b u = Inr (j, c) \<and> allocated_in_narrowest b u j c \<and>
      constants_map c = constants_map b"
    if "\<exists>k \<in> {0..<3}. 0 < available (idx_slice b ! k)" for u
  proof -
    from that obtain k where "k < 3" "0 < available (idx_slice b ! k)"
      by auto
    from AllocateIndex_succeeds[OF wf this, of u]
    obtain j c where a: "AllocateIndex b u = Inr (j, c)"
      by blast
    with AllocateIndex_narrowest[OF wf a] AllocateIndex_map[OF a] show ?thesis
      by blast
  qed
  have 1: "\<exists>j c. AllocateIndex b v = Inr (j, c) \<and> allocated_in_narrowest b v j c"
    if "\<exists>k \<in> {0..<3}. 0 < available (idx_slice b ! k)"
    using ok[OF that, of v] by blast
  have 2: "\<exists>j c. Insert b v = Inr (j, c) \<and> allocated_in_narrowest b v j c \<and>
      constants_map c = (constants_map b)(v \<mapsto> j)"
    if a: "\<exists>k \<in> {0..<3}. 0 < available (idx_slice b ! k)" and n: "constants_map b v = None"
  proof -
    from ok[OF a, of v] obtain j c where c: "AllocateIndex b v = Inr (j, c)"
      and m: "constants_map c = constants_map b"
      by blast
    let ?c = "c\<lparr>constants_map := (constants_map c)(v \<mapsto> j)\<rparr>"
    have i: "Insert b v = Inr (j, ?c)"
      by (simp add: Insert_def n AllocateEntry_def c)
    from Insert_narrowest[OF wf n i] i m show ?thesis
      by (intro exI[of _ j] exI[of _ ?c]) simp
  qed
  have 3: "\<exists>j c. AllocateEntry_hole b = Inr (j, c) \<and>
      allocated_in_narrowest b (the_hole_value b) j c \<and> constants_map c = constants_map b"
    if "\<exists>k \<in> {0..<3}. 0 < available (idx_slice b ! k)"
    using ok[OF that, of "the_hole_value b"] by (simp add: AllocateEntry_hole_def)
  have 4: "AllocateIndex b u = Inl CapacityExhausted"
    if "\<forall>k \<in> {0..<3}. available (idx_slice b ! k) = 0" for u
    using wf that by (rule AllocateIndex_exhausted)
  have 5: "Insert b v = Inl CapacityExhausted"
    if "\<forall>k \<in> {0..<3}. available (idx_slice b ! k) = 0" "constants_map b v = None"
    using 4[OF that(1), of v] that(2) by (simp add: Insert_def AllocateEntry_def)
  have 6: "AllocateEntry_hole b = Inl CapacityExhausted"
    if "\<forall>k \<in> {0..<3}. available (idx_slice b ! k) = 0"
    using 4[OF that] by (simp add: AllocateEntry_hole_def)
  have 7: "allocated_in_narrowest b v i b'" if "AllocateIndex b v = Inr (i, b')"
    using wf that by (rule AllocateIndex_narrowest)
  have 8: "allocated_in_narrowest b v i b'"
    if "constants_map b v = None" "Insert b v = Inr (i, b')"
    using wf that by (rule Insert_narrowest)
  have 9: "allocated_in_narrowest b (the_hole_value b) i b'"
    if "AllocateEntry_hole b = Inr (i, b')"
    using wf that unfolding AllocateEntry_hole_def by (rule AllocateIndex_narrowest)
  from 1 2 3 have A: "(\<exists>k \<in> {0..<3}. 0 < available (idx_slice b ! k)) \<longrightarrow>
        (\<exists>j c. AllocateIndex b v = Inr (j, c) \<and> allocated_in_narrowest b v j c) \<and>
        (constants_map b v = None \<longrightarrow>
           (\<exists>j c. Insert b v = Inr (j, c) \<and> allocated_in_narrowest b v j c \<and>
                  constants_map c = (constants_map b)(v \<mapsto> j))) \<and>
        (\<exists>j c. AllocateEntry_hole b = Inr (j, c) \<and>
               allocated_in_narrowest b (the_hole_value b) j c \<and>
               constants_map c = constants_map b)"
    by (intro impI conjI) simp_all
  from 4 5 6 have B: "(\<forall>k \<in> {0..<3}. available (idx_slice b ! k) = 0) \<longrightarrow>
        AllocateIndex b v = Inl CapacityExhausted \<and>
        (constants_map b v = None \<longrightarrow> Insert b v = Inl CapacityExhausted) \<and>
        AllocateEntry_hole b = Inl CapacityExhausted"
    by (intro impI conjI) simp_all
  from 7 8 9 have C: "(AllocateIndex b v = Inr (i, b') \<longrightarrow> allocated_in_narrowest b v i b') \<and>
     (constants_map b v = None \<longrightarrow> Insert b v = Inr (i, b') \<longrightarrow>
        allocated_in_narrowest b v i b') \<and>
     (AllocateEntry_hole b = Inr (i, b') \<longrightarrow>
        allocated_in_narrowest b (the_hole_value b) i b')"
    by (intro impI conjI) simp_all
  show ?thesis
    by (rule conjI[OF A conjI[OF B C]])
qed

section \<open>The map of registered indices\<close>

lemma Insert_map:
  "Insert b u = Inr (i, b') \<Longrightarrow> constants_map b v = Some j \<Longrightarrow> constants_map b' v = Some j"
  by (auto simp: Insert_def AllocateEntry_def split: option.splits sum.splits
      dest!: AllocateIndex_map)

lemma Insert_registers: "Insert b v = Inr (i, b') \<Longrightarrow> constants_map b' v = Some i"
  by (auto simp: Insert_def AllocateEntry_def split: option.splits sum.splits)

lemma Insert_registered: "constants_map b v = Some i \<Longrightarrow> Insert b v = Inr (i, b)"
  by (simp add: Insert_def)

lemma InsertAllocatedEntry_map:
  "InsertAllocatedEntry b i v = Inr b' \<Longrightarrow> constants_map b' = constants_map b"
  by (auto simp: InsertAllocatedEntry_def split: sum.splits if_splits)

lemma CreateReservedEntry_map:
  "CreateReservedEntry b = Inr (os, b') \<Longrightarrow> constants_map b' = constants_map b"
  by (auto simp: CreateReservedEntry_def split: sum.splits)

lemma DiscardReservedEntry_map:
  "DiscardReservedEntry b os = Inr b' \<Longrightarrow> constants_map b' = constants_map b"
  by (auto simp: DiscardReservedEntry_def split: sum.splits)

lemma CommitReservedEntry_map:
  assumes "CommitReservedEntry b os u = Inr (i, b')" "u \<noteq> v"
  shows "constants_map b' v = constants_map b v"
proof -
  from assms(1) obtain b1 where b1: "DiscardReservedEntry b os = Inr b1"
    by (auto simp: CommitReservedEntry_def split: sum.splits)
  have "constants_map b' v = constants_map b1 v"
    using assms b1
    by (auto simp: CommitReservedEntry_def AllocateEntry_def
        split: sum.splits option.splits if_splits dest!: AllocateIndex_map)
  then show ?thesis
    by (simp add: DiscardReservedEntry_map[OF b1])
qed

lemma OperandSizeToSlice_update:
  "k < length (idx_slice b) \<Longrightarrow> operand_size s' = operand_size (idx_slice b ! k) \<Longrightarrow>
   OperandSizeToSlice (b\<lparr>idx_slice := (idx_slice b)[k := s']\<rparr>) os = OperandSizeToSlice b os"
  by (cases os) (auto simp: OperandSizeToSlice_def nth_list_update)

text \<open>
  What a successful \<open>DiscardReservedEntry\<close> leaves for the rest of
  \<open>CommitReservedEntry\<close>: the same slice for the operand size, with the same last index.
\<close>

lemma DiscardReservedEntry_slice:
  assumes "DiscardReservedEntry b os = Inr b1"
  obtains k where "OperandSizeToSlice b os = Inr k" "OperandSizeToSlice b1 os = Inr k"
    "max_index (idx_slice b1 ! k) = max_index (idx_slice b ! k)"
proof -
  from assms obtain k s1 where k: "OperandSizeToSlice b os = Inr k"
    and u: "Unreserve (idx_slice b ! k) = Inr s1"
    and b1: "b1 = b\<lparr>idx_slice := (idx_slice b)[k := s1]\<rparr>"
    by (auto simp: DiscardReservedEntry_def split: sum.splits)
  from u have s1: "s1 = (idx_slice b ! k)\<lparr>reserved := reserved (idx_slice b ! k) - 1\<rparr>"
    by (auto simp: Unreserve_def split: if_splits)
  have len: "k < length (idx_slice b)"
    using k by (rule OperandSizeToSlice_less)
  have "OperandSizeToSlice b1 os = Inr k"
    unfolding b1 using len by (simp add: OperandSizeToSlice_update s1 k)
  moreover have "max_index (idx_slice b1 ! k) = max_index (idx_slice b ! k)"
    using len by (simp add: b1 s1 max_index_def)
  ultimately show ?thesis
    using k that by blast
qed

text \<open>
  A commit of a registered \<open>v\<close> that does not re-point \<open>v\<close> returns the registered
  index and leaves the map as it is.
\<close>

lemma CommitReservedEntry_reuses:
  assumes c: "CommitReservedEntry b os v = Inr (i, b')"
    and reg: "constants_map b v = Some j"
    and n: "\<not> repoints v b (CallCommitReservedEntry os v)"
  shows "i = j \<and> constants_map b' = constants_map b"
proof -
  from c obtain b1 where d: "DiscardReservedEntry b os = Inr b1"
    by (auto simp: CommitReservedEntry_def split: sum.splits)
  from d obtain k where k: "OperandSizeToSlice b os = Inr k"
    "OperandSizeToSlice b1 os = Inr k"
    "max_index (idx_slice b1 ! k) = max_index (idx_slice b ! k)"
    by (rule DiscardReservedEntry_slice)
  have m: "constants_map b1 = constants_map b"
    using d by (rule DiscardReservedEntry_map)
  from n reg k(1) have "\<not> j > max_index (idx_slice b ! k)"
    by (simp add: repoints_def)
  with c have "i = j \<and> b' = b1"
    by (auto simp: CommitReservedEntry_def d m reg k)
  with m show ?thesis
    by simp
qed

text \<open>
  A commit that re-points \<open>v\<close> does change the index registered for \<open>v\<close>: the new
  index lies in the slice of the operand size, below the old one.
\<close>

lemma repoints_changes_map:
  assumes r: "repoints v b c" and c: "do_call b c = Inr b'"
  shows "constants_map b' v \<noteq> constants_map b v"
proof -
  from r obtain os j k where call: "c = CallCommitReservedEntry os v"
    and reg: "constants_map b v = Some j"
    and k0: "OperandSizeToSlice b os = Inr k"
    and gt: "j > max_index (idx_slice b ! k)"
    by (auto simp: repoints_def split: call.splits option.splits sum.splits)
  from c call obtain i where ci: "CommitReservedEntry b os v = Inr (i, b')"
    by (auto simp: map_sum_def split: sum.splits)
  then obtain b1 where d: "DiscardReservedEntry b os = Inr b1"
    by (auto simp: CommitReservedEntry_def split: sum.splits)
  from d obtain k' where k: "OperandSizeToSlice b os = Inr k'"
    "OperandSizeToSlice b1 os = Inr k'"
    "max_index (idx_slice b1 ! k') = max_index (idx_slice b ! k')"
    by (rule DiscardReservedEntry_slice)
  from k(1) k0 have kk: "k' = k"
    by simp
  have m: "constants_map b1 = constants_map b"
    using d by (rule DiscardReservedEntry_map)
  from ci gt obtain index s2 where a: "Allocate (idx_slice b1 ! k) v = Inr (index, s2)"
    and m': "constants_map b' v = Some (static_cast_index_t index)"
    by (auto simp: CommitReservedEntry_def d m reg k[unfolded kk] split: sum.splits)
  from Allocate_result[OF a] have "index \<le> max_index (idx_slice b1 ! k)"
    by (auto simp: max_index_def)
  then have "index < j"
    using gt k(3) by (simp add: kk)
  moreover have "static_cast_index_t index \<le> index"
    by (simp add: static_cast_index_t_def)
  ultimately show ?thesis
    by (simp add: m' reg)
qed

lemma do_call_map:
  assumes "do_call b c = Inr b'" "\<not> repoints v b c" "constants_map b v = Some j"
  shows "constants_map b' v = Some j"
proof (cases c)
  case (CallInsert u)
  with assms show ?thesis
    by (auto simp: map_sum_def split: sum.splits dest: Insert_map)
next
  case CallAllocateEntry
  with assms show ?thesis
    by (auto simp: map_sum_def AllocateEntry_hole_def split: sum.splits
        dest!: AllocateIndex_map)
next
  case (CallInsertAllocatedEntry i u)
  with assms show ?thesis
    by (auto dest!: InsertAllocatedEntry_map)
next
  case CallCreateReservedEntry
  with assms show ?thesis
    by (auto simp: map_sum_def split: sum.splits dest!: CreateReservedEntry_map)
next
  case (CallCommitReservedEntry os u)
  with assms(1) obtain i where c: "CommitReservedEntry b os u = Inr (i, b')"
    by (auto simp: map_sum_def split: sum.splits)
  show ?thesis
  proof (cases "u = v")
    case True
    with CommitReservedEntry_reuses[of b os v i b' j] c assms(2,3) CallCommitReservedEntry
    show ?thesis
      by simp
  next
    case False
    with CommitReservedEntry_map[OF c False] assms(3) show ?thesis
      by simp
  qed
next
  case (CallDiscardReservedEntry os)
  with assms show ?thesis
    by (auto dest!: DiscardReservedEntry_map)
qed

lemma run_map:
  "run b cs = Inr b' \<Longrightarrow> no_repoint v b cs \<Longrightarrow>
   constants_map b v = Some j \<Longrightarrow> constants_map b' v = Some j"
proof (induction cs arbitrary: b)
  case Nil
  then show ?case by simp
next
  case (Cons c cs)
  from Cons.prems(1) obtain b1 where 1: "do_call b c = Inr b1" and 2: "run b1 cs = Inr b'"
    by (auto split: sum.splits)
  from Cons.prems(2) 1 have n: "\<not> repoints v b c" "no_repoint v b1 cs"
    by simp_all
  from do_call_map[OF 1 n(1) Cons.prems(3)] have "constants_map b1 v = Some j" .
  with Cons.IH[OF 2 n(2)] show ?case .
qed

lemma run_repeat_Insert:
  "constants_map b v = Some i \<Longrightarrow> run b (replicate n (CallInsert v)) = Inr b"
  by (induction n) (simp_all add: Insert_registered)

text \<open>
  Claim C3. Once \<open>Insert\<close> of an identity \<open>v\<close> has returned the index \<open>i\<close>, the
  next \<open>Insert\<close> of \<open>v\<close> returns \<open>i\<close> again and leaves the builder as it is, so any
  number of repeated \<open>Insert\<close> calls of \<open>v\<close> keep the state and the index; and after any
  run of calls in which no \<open>CommitReservedEntry\<close> re-points \<open>v\<close> (commits of \<open>v\<close> that
  reuse its index are allowed), \<open>Insert\<close> of \<open>v\<close> still returns \<open>i\<close>.
\<close>

theorem Insert_idempotent:
  assumes "Insert b v = Inr (i, b')"
  shows "Insert b' v = Inr (i, b') \<and>
    run b' (replicate n (CallInsert v)) = Inr b' \<and>
    (no_repoint v b' cs \<longrightarrow> run b' cs = Inr b'' \<longrightarrow> Insert b'' v = Inr (i, b''))"
proof -
  from assms have m: "constants_map b' v = Some i"
    by (rule Insert_registers)
  then have 1: "Insert b' v = Inr (i, b')"
    by (rule Insert_registered)
  from m have 2: "run b' (replicate n (CallInsert v)) = Inr b'"
    by (rule run_repeat_Insert)
  have 3: "Insert b'' v = Inr (i, b'')"
    if "no_repoint v b' cs" "run b' cs = Inr b''"
    using run_map[OF that(2,1) m] by (rule Insert_registered)
  from 1 2 3 show ?thesis
    by blast
qed

section \<open>Allocated entries and their values\<close>

lemma extends_wf:
  "builder_extends X b b' \<Longrightarrow> slices_inv b' \<Longrightarrow> builder_wf b \<Longrightarrow> builder_wf b'"
  by (auto simp: builder_wf_def builder_extends_def dest: layout_extends)

lemma InsertAllocatedEntry_wf:
  "InsertAllocatedEntry b i v = Inr b' \<Longrightarrow> builder_wf b \<Longrightarrow> builder_wf b'"
  using do_call_wf[of b "CallInsertAllocatedEntry i v" b'] by simp

lemma Insert_wf: "Insert b v = Inr (i, b') \<Longrightarrow> builder_wf b \<Longrightarrow> builder_wf b'"
  using do_call_wf[of b "CallInsert v" b'] by simp

lemma AllocateEntry_hole_wf:
  "AllocateEntry_hole b = Inr (i, b') \<Longrightarrow> builder_wf b \<Longrightarrow> builder_wf b'"
  using do_call_wf[of b "CallAllocateEntry" b'] by simp

lemma CommitReservedEntry_wf:
  "CommitReservedEntry b os v = Inr (i, b') \<Longrightarrow> builder_wf b \<Longrightarrow> builder_wf b'"
  using do_call_wf[of b "CallCommitReservedEntry os v" b'] by simp

lemma stored_IndexToSlice:
  "stored b i = Some v \<Longrightarrow>
   \<exists>k. IndexToSlice b i = Inr k \<and> slice_stored (idx_slice b ! k) i = Some v"
  by (auto simp: stored_def split: sum.splits)

text \<open>Filling an allocated slot\<close>

lemma InsertAllocatedEntry_fills:
  assumes wf: "builder_wf b" and h: "stored b i = Some (the_hole_value b)"
  shows "\<exists>b'. InsertAllocatedEntry b i v = Inr b' \<and> stored b' i = Some v"
proof -
  from stored_IndexToSlice[OF h] obtain k where k: "IndexToSlice b i = Inr k"
    and s: "slice_stored (idx_slice b ! k) i = Some (the_hole_value b)"
    by blast
  from s have range: "start_index (idx_slice b ! k) \<le> i"
    "i < start_index (idx_slice b ! k) + slice_size (idx_slice b ! k)"
    by (auto simp: slice_stored_def split: if_splits)
  let ?s' = "(idx_slice b ! k)\<lparr>constants :=
    (constants (idx_slice b ! k))[i - start_index (idx_slice b ! k) := v]\<rparr>"
  let ?b' = "b\<lparr>idx_slice := (idx_slice b)[k := ?s']\<rparr>"
  have ins: "InsertAt (idx_slice b ! k) i v = Inr ?s'"
    using range by (simp add: InsertAt_def)
  have 1: "InsertAllocatedEntry b i v = Inr ?b'"
    by (simp add: InsertAllocatedEntry_def At_stored_Some[OF wf h] k ins)
  have ext: "builder_extends {i} b ?b'"
    using 1 by (rule InsertAllocatedEntry_extends)
  from wf have l: "layout (idx_slice b)"
    by (simp add: builder_wf_def)
  have k': "IndexToSlice ?b' i = Inr k"
    by (simp add: IndexToSlice_extends[OF ext l] k)
  have "k < length (idx_slice b)"
    using k by (rule IndexToSlice_less)
  then have "stored ?b' i = Some v"
    using range by (simp add: stored_def k' slice_stored_def slice_size_def)
  with 1 show ?thesis
    by blast
qed

lemma InsertAllocatedEntry_result:
  assumes wf: "builder_wf b" and a: "InsertAllocatedEntry b i v = Inr b'"
  shows "stored b i = Some (the_hole_value b)" "stored b' i = Some v"
    "constants_map b' = constants_map b"
proof -
  from a obtain k s' where at: "At b i = Inr (the_hole_value b)"
    and k: "IndexToSlice b i = Inr k"
    and ins: "InsertAt (idx_slice b ! k) i v = Inr s'"
    by (auto simp: InsertAllocatedEntry_def split: sum.splits if_splits)
  from ins have range: "start_index (idx_slice b ! k) \<le> i"
    "i < start_index (idx_slice b ! k) + slice_size (idx_slice b ! k)"
    by (auto simp: InsertAt_def split: if_splits)
  then obtain w where w: "slice_stored (idx_slice b ! k) i = Some w"
    by (simp add: slice_stored_def)
  with at k have "w = the_hole_value b"
    by (simp add: At_stored[OF wf])
  with w k show 1: "stored b i = Some (the_hole_value b)"
    by (simp add: stored_def)
  from InsertAllocatedEntry_fills[OF wf 1, of v] a show "stored b' i = Some v"
    by auto
  from a show "constants_map b' = constants_map b"
    by (rule InsertAllocatedEntry_map)
qed

lemma run_list_all_fill:
  "list_all (\<lambda>c. i \<notin> fill_set c) cs \<Longrightarrow> i \<notin> (\<Union>c \<in> set cs. fill_set c)"
  by (simp add: list_all_iff)

text \<open>
  Claim C6. In a well-formed builder with an available slot the \<open>AllocateEntry\<close> without
  an object succeeds. After it has returned \<open>i\<close>, \<open>At\<close> of \<open>i\<close> is the hole; after any run
  of calls that has no \<open>InsertAllocatedEntry\<close> at \<open>i\<close>, \<open>At\<close> of \<open>i\<close> is still the hole;
  and \<open>InsertAllocatedEntry\<close> of \<open>v\<close> at \<open>i\<close> then succeeds, after which \<open>At\<close> of \<open>i\<close> is
  \<open>v\<close>.
\<close>

theorem AllocateEntry_hole_until_filled:
  assumes wf: "builder_wf b"
  shows "((\<exists>k \<in> {0..<3}. 0 < available (idx_slice b ! k)) \<longrightarrow>
           (\<exists>j c. AllocateEntry_hole b = Inr (j, c))) \<and>
    (AllocateEntry_hole b = Inr (i, b1) \<longrightarrow>
       At b1 i = Inr (the_hole_value b) \<and>
       (list_all (\<lambda>c. i \<notin> fill_set c) cs \<longrightarrow> run b1 cs = Inr b2 \<longrightarrow>
          At b2 i = Inr (the_hole_value b) \<and>
          (\<exists>b3. InsertAllocatedEntry b2 i v = Inr b3 \<and> At b3 i = Inr v)))"
proof -
  have 1: "\<exists>j c. AllocateEntry_hole b = Inr (j, c)"
    if "\<exists>k \<in> {0..<3}. 0 < available (idx_slice b ! k)"
    using that AllocateIndex_succeeds[OF wf] by (auto simp: AllocateEntry_hole_def)
  have 2: "At b1 i = Inr (the_hole_value b) \<and>
       (list_all (\<lambda>c. i \<notin> fill_set c) cs \<longrightarrow> run b1 cs = Inr b2 \<longrightarrow>
          At b2 i = Inr (the_hole_value b) \<and>
          (\<exists>b3. InsertAllocatedEntry b2 i v = Inr b3 \<and> At b3 i = Inr v))"
    if a: "AllocateEntry_hole b = Inr (i, b1)"
  proof -
    from a have "allocated_in_narrowest b (the_hole_value b) i b1"
      unfolding AllocateEntry_hole_def by (rule AllocateIndex_narrowest[OF wf])
    then have s1: "stored b1 i = Some (the_hole_value b)"
      by (auto simp: allocated_in_narrowest_def)
    have wf1: "builder_wf b1"
      using a wf by (rule AllocateEntry_hole_wf)
    have h1: "the_hole_value b1 = the_hole_value b"
      using a by (auto simp: AllocateEntry_hole_def AllocateIndex_def split: sum.splits)
    have 21: "At b1 i = Inr (the_hole_value b)"
      using wf1 s1 by (rule At_stored_Some)
    have 22: "At b2 i = Inr (the_hole_value b) \<and>
          (\<exists>b3. InsertAllocatedEntry b2 i v = Inr b3 \<and> At b3 i = Inr v)"
      if nf: "list_all (\<lambda>c. i \<notin> fill_set c) cs" and r: "run b1 cs = Inr b2"
    proof -
      have wf2: "builder_wf b2"
        using r wf1 by (rule run_wf)
      have ext: "builder_extends (\<Union>c \<in> set cs. fill_set c) b1 b2"
        using r by (rule run_extends)
      then have h2: "the_hole_value b2 = the_hole_value b"
        by (simp add: builder_extends_def h1)
      from wf1 have l1: "layout (idx_slice b1)"
        by (simp add: builder_wf_def)
      have s2: "stored b2 i = Some (the_hole_value b)"
        using ext l1 run_list_all_fill[OF nf] s1 by (rule stored_extends)
      from InsertAllocatedEntry_fills[OF wf2, of i v] s2 h2
      obtain b3 where b3: "InsertAllocatedEntry b2 i v = Inr b3" "stored b3 i = Some v"
        by auto
      have "builder_wf b3"
        using b3(1) wf2 by (rule InsertAllocatedEntry_wf)
      then have "At b3 i = Inr v"
        using b3(2) by (rule At_stored_Some)
      with b3(1) At_stored_Some[OF wf2 s2] show ?thesis
        by blast
    qed
    from 21 22 show ?thesis
      by blast
  qed
  from 1 2 show ?thesis
    by blast
qed

text \<open>
  Claim C8. \<open>InsertAllocatedEntry\<close> of \<open>v\<close> at \<open>i\<close> finds the hole at \<open>i\<close>, puts \<open>v\<close>
  there and leaves \<open>constants_map\<close> as it was. So when the map did not hold \<open>v\<close>, a
  following \<open>Insert\<close> of \<open>v\<close> does not return \<open>i\<close>: it allocates the next free index
  \<open>j\<close> of the first slice with an available slot (it succeeds when there is one), and
  afterwards both \<open>i\<close> and \<open>j\<close> hold \<open>v\<close>.
\<close>

theorem InsertAllocatedEntry_bypasses_map:
  assumes wf: "builder_wf b" and a: "InsertAllocatedEntry b i v = Inr b'"
  shows "constants_map b' = constants_map b \<and>
    At b i = Inr (the_hole_value b) \<and> At b' i = Inr v \<and>
    (constants_map b v = None \<longrightarrow>
       ((\<exists>k \<in> {0..<3}. 0 < available (idx_slice b' ! k)) \<longrightarrow>
          (\<exists>j c. Insert b' v = Inr (j, c))) \<and>
       (Insert b' v = Inr (j, b'') \<longrightarrow>
          j \<noteq> i \<and> allocated_in_narrowest b' v j b'' \<and>
          At b'' j = Inr v \<and> At b'' i = Inr v))"
proof -
  note r = InsertAllocatedEntry_result[OF wf a]
  have wf': "builder_wf b'"
    using a wf by (rule InsertAllocatedEntry_wf)
  have 1: "At b i = Inr (the_hole_value b)"
    using wf r(1) by (rule At_stored_Some)
  have 2: "At b' i = Inr v"
    using wf' r(2) by (rule At_stored_Some)
  have 3: "\<exists>j c. Insert b' v = Inr (j, c)"
    if "constants_map b v = None" "\<exists>k \<in> {0..<3}. 0 < available (idx_slice b' ! k)"
  proof -
    from that(2) obtain k where "k < 3" "0 < available (idx_slice b' ! k)"
      by auto
    from AllocateIndex_succeeds[OF wf' this, of v]
    obtain j c where "AllocateIndex b' v = Inr (j, c)"
      by blast
    then show ?thesis
      using that(1) by (simp add: Insert_def r(3) AllocateEntry_def)
  qed
  have 4: "j \<noteq> i \<and> allocated_in_narrowest b' v j b'' \<and>
          At b'' j = Inr v \<and> At b'' i = Inr v"
    if n: "constants_map b v = None" and ins: "Insert b' v = Inr (j, b'')"
  proof -
    from n have n': "constants_map b' v = None"
      by (simp add: r(3))
    have al: "allocated_in_narrowest b' v j b''"
      using wf' n' ins by (rule Insert_narrowest)
    then have f: "stored b' j = None" "stored b'' j = Some v"
      by (auto simp: allocated_in_narrowest_def)
    with r(2) have ne: "j \<noteq> i"
      by auto
    have wf'': "builder_wf b''"
      using ins wf' by (rule Insert_wf)
    have ext: "builder_extends {} b' b''"
      using ins by (rule Insert_extends)
    from wf' have l': "layout (idx_slice b')"
      by (simp add: builder_wf_def)
    have "stored b'' i = Some v"
      using ext l' _ r(2) by (rule stored_extends) simp
    with f(2) wf'' ne al show ?thesis
      by (simp add: At_stored_Some)
  qed
  from r(3) 1 2 3 4 show ?thesis
    by blast
qed

section \<open>Committing a reservation\<close>

lemma layout_tiers_ordered:
  assumes "layout ss" "kw < kj" "kj < 3"
  shows "max_index (ss ! kw) < start_index (ss ! kj)"
proof -
  from assms(1) obtain s0 s1 s2 where ss: "ss = [s0, s1, s2]" and l: "layout [s0, s1, s2]"
    by (rule layoutE)
  consider "kw = 0" "kj = 1" | "kw = 0" "kj = 2" | "kw = 1" "kj = 2"
    using assms(2,3) by linarith
  then show ?thesis
    using l unfolding ss layout3 max_index_def
    by cases auto
qed

lemma OperandSizeToSlice_wf:
  assumes "builder_wf b" "k < 3" "operand_size (idx_slice b ! k) = os"
  shows "OperandSizeToSlice b os = Inr k"
proof -
  from assms(1) obtain s0 s1 s2 where ss: "idx_slice b = [s0, s1, s2]"
    and l: "layout [s0, s1, s2]"
    by (rule wfE)
  consider "k = 0" | "k = 1" | "k = 2"
    using assms(2) by linarith
  then show ?thesis
    using l assms(3) unfolding layout3 ss
    by cases (auto simp: OperandSizeToSlice_def ss)
qed

text \<open>
  Claim C1, as amended. Let the builder be well-formed, let \<open>kw\<close> be the slice whose
  operand size is \<open>os\<close>, let it hold a reservation, and let the map register \<open>v\<close> at an
  index \<open>j\<close> of a slice \<open>kj\<close> after \<open>kw\<close>. Then \<open>CommitReservedEntry\<close> of \<open>os\<close> and \<open>v\<close>
  succeeds and returns the next free index \<open>i\<close> of slice \<open>kw\<close>: only that slice changes,
  by one reservation less and \<open>v\<close> appended; \<open>i\<close> was not stored before and now holds
  \<open>v\<close>, the first copy at \<open>j\<close> stays, the map is the old one with \<open>v\<close> at \<open>i\<close>, and
  \<open>Insert\<close> of \<open>v\<close> returns \<open>i\<close>, at once and after any run of calls in which no
  \<open>CommitReservedEntry\<close> re-points \<open>v\<close> again.
\<close>

theorem CommitReservedEntry_duplicates_in_reserved_tier:
  assumes wf: "builder_wf b"
    and kw: "kw < 3"
    and osz: "operand_size (idx_slice b ! kw) = os"
    and res: "0 < reserved (idx_slice b ! kw)"
    and reg: "constants_map b v = Some j"
    and tier: "IndexToSlice b j = Inr kj"
    and wider: "kw < kj"
  shows "\<exists>i b'. CommitReservedEntry b os v = Inr (i, b') \<and>
    i = start_index (idx_slice b ! kw) + slice_size (idx_slice b ! kw) \<and>
    idx_slice b' =
      (idx_slice b)[kw := append_constant
         ((idx_slice b ! kw)\<lparr>reserved := reserved (idx_slice b ! kw) - 1\<rparr>) v] \<and>
    operand_size (idx_slice b' ! kw) = os \<and>
    IndexToSlice b' i = Inr kw \<and> i \<noteq> j \<and>
    stored b i = None \<and> At b' i = Inr v \<and>
    (\<forall>w. stored b j = Some w \<longrightarrow> At b' j = Inr w) \<and>
    constants_map b' = (constants_map b)(v \<mapsto> i) \<and>
    Insert b' v = Inr (i, b') \<and>
    (\<forall>cs b''. no_repoint v b' cs \<longrightarrow> run b' cs = Inr b'' \<longrightarrow>
       Insert b'' v = Inr (i, b''))"
proof -
  have os: "OperandSizeToSlice b os = Inr kw"
    using wf kw osz by (rule OperandSizeToSlice_wf)
  define s where "s = idx_slice b ! kw"
  define s1 where "s1 = s\<lparr>reserved := reserved s - 1\<rparr>"
  define b1 where "b1 = b\<lparr>idx_slice := (idx_slice b)[kw := s1]\<rparr>"
  define i where "i = start_index s + slice_size s"
  define b2 where "b2 = b1\<lparr>idx_slice := (idx_slice b1)[kw := append_constant s1 v],
               constants_map := (constants_map b1)(v \<mapsto> static_cast_index_t i)\<rparr>"
  from wf have l: "layout (idx_slice b)" and inv: "slices_inv b"
    by (simp_all add: builder_wf_def)
  from l have len: "length (idx_slice b) = 3"
    by (simp add: layout_def)
  from tier have kj: "kj < 3" and j: "start_index (idx_slice b ! kj) \<le> j"
    by (simp_all add: IndexToSlice_layout[OF l])
  have beyond: "max_index s < j"
    using layout_tiers_ordered[OF l wider kj] j by (simp add: s_def)
  have sinv: "slice_inv s"
    using inv kw len by (simp add: slices_inv_def list_all_length s_def)
  have unres: "Unreserve s = Inr s1"
    using res by (simp add: Unreserve_def s1_def s_def)
  have d: "DiscardReservedEntry b os = Inr b1"
    using unres by (simp add: DiscardReservedEntry_def os b1_def s_def)
  have os1: "OperandSizeToSlice b1 os = Inr kw"
    unfolding b1_def
    using kw len by (simp add: OperandSizeToSlice_update os s1_def s_def)
  have nth1: "idx_slice b1 ! kw = s1"
    using kw len by (simp add: b1_def)
  have reg1: "constants_map b1 v = Some j"
    by (simp add: b1_def reg)
  have max1: "max_index s1 = max_index s"
    by (simp add: s1_def max_index_def)
  have av: "0 < available s1"
    using sinv res by (simp add: available_def slice_inv_def slice_size_def s1_def s_def)
  have free: "slice_size (idx_slice b ! kw) < capacity (idx_slice b ! kw)"
    using sinv res by (simp add: slice_inv_def s_def)
  have al: "Allocate s1 v = Inr (i, append_constant s1 v)"
    using Allocate_succeeds[OF av, of v]
    by (simp add: slice_size_def add.commute i_def s1_def)
  have c: "CommitReservedEntry b os v = Inr (i, b2)"
    using beyond
    by (simp add: CommitReservedEntry_def d reg1 os1 nth1 al max1 b2_def)
  have i: "i = start_index (idx_slice b ! kw) + slice_size (idx_slice b ! kw)"
    by (simp add: i_def s_def)
  have wf2: "builder_wf b2"
    using c wf by (rule CommitReservedEntry_wf)
  have ext: "builder_extends {} b b2"
    using c by (rule CommitReservedEntry_extends)
  have k2: "IndexToSlice b2 i = Inr kw"
    unfolding IndexToSlice_extends[OF ext l]
    using kw free by (simp add: IndexToSlice_layout[OF l] i)
  have sl: "idx_slice (b\<lparr>idx_slice :=
      (idx_slice b)[kw := append_constant (idx_slice b ! kw) v]\<rparr>) =
      (idx_slice b)[kw := append_constant (idx_slice b ! kw) v]"
    by simp
  have lt: "i < 2 ^ 32"
    unfolding i using allocated_slot(5)[OF wf kw free sl] .
  have ne: "i \<noteq> j"
    using beyond free by (simp add: max_index_def i s_def)
  have s0: "stored b i = None"
    unfolding i using allocated_slot(3)[OF wf kw free sl] .
  have "idx_slice b2 ! kw = append_constant s1 v"
    using kw len by (simp add: b2_def b1_def)
  then have "slice_stored (idx_slice b2 ! kw) i = Some v"
    by (simp add: slice_stored_def append_constant_def slice_size_def i_def s1_def)
  then have "stored b2 i = Some v"
    using k2 by (simp add: stored_def)
  then have at: "At b2 i = Inr v"
    by (rule At_stored_Some[OF wf2])
  have old: "At b2 j = Inr w" if "stored b j = Some w" for w
    using stored_extends[OF ext l _ that] At_stored_Some[OF wf2] by simp
  have m: "constants_map b2 = (constants_map b)(v \<mapsto> i)"
    using lt by (simp add: static_cast_index_t_def b2_def b1_def)
  then have reg2: "constants_map b2 v = Some i"
    by simp
  then have ins: "Insert b2 v = Inr (i, b2)"
    by (rule Insert_registered)
  have later: "Insert b'' v = Inr (i, b'')"
    if "no_repoint v b2 cs" "run b2 cs = Inr b''" for cs b''
    using run_map[OF that(2,1) reg2] by (rule Insert_registered)
  have sl2: "idx_slice b2 =
      (idx_slice b)[kw := append_constant
         ((idx_slice b ! kw)\<lparr>reserved := reserved (idx_slice b ! kw) - 1\<rparr>) v]"
    by (simp add: b2_def b1_def s1_def s_def)
  have os2: "operand_size (idx_slice b2 ! kw) = os"
    using kw len osz by (simp add: sl2 append_constant_def)
  from c i sl2 os2 k2 ne s0 at old m ins later show ?thesis
    by blast
qed

section \<open>Concrete runs\<close>

lemma case_Inr_iff:
  "(case x of Inl e \<Rightarrow> False | Inr y \<Rightarrow> P y) \<longleftrightarrow> (\<exists>y. x = Inr y \<and> P y)"
  by (cases x) auto

lemma case_Inr_pair_iff:
  "(case x of Inl e \<Rightarrow> False | Inr (i, b) \<Rightarrow> P i b) \<longleftrightarrow>
   (\<exists>i b. x = Inr (i, b) \<and> P i b)"
  by (cases x) auto

theorem new_allocation_in_narrowest_tier_witness:
  "(case run (new_ConstantArrayBuilder 2 2 4 (0::nat)) [CallInsert 7, CallCreateReservedEntry] of
     Inl e \<Rightarrow> False
   | Inr b \<Rightarrow>
       builder_wf b \<and> available (idx_slice b ! 0) = 0 \<and> 0 < available (idx_slice b ! 1) \<and>
       constants_map b 9 = None \<and>
       (case Insert b 9 of
          Inl e \<Rightarrow> False
        | Inr (i, b') \<Rightarrow>
            i = 2 \<and> IndexToSlice b' i = Inr 1 \<and> allocated_in_narrowest b 9 i b' \<and>
            constants_map b' = (constants_map b)(9 \<mapsto> 2)) \<and>
       (case AllocateEntry_hole b of
          Inl e \<Rightarrow> False
        | Inr (i, b') \<Rightarrow> i = 2 \<and> allocated_in_narrowest b (the_hole_value b) i b')) \<and>
   (case run (new_ConstantArrayBuilder 1 1 1 (0::nat))
           [CallInsert 7, CallCreateReservedEntry, CallInsert 8] of
      Inl e \<Rightarrow> False
    | Inr b \<Rightarrow>
        builder_wf b \<and> available (idx_slice b ! 0) = 0 \<and> available (idx_slice b ! 1) = 0 \<and>
        available (idx_slice b ! 2) = 0 \<and> constants_map b 9 = None \<and>
        Insert b 9 = Inl CapacityExhausted \<and> AllocateEntry_hole b = Inl CapacityExhausted)"
proof -
  let ?cs = "[CallInsert 7, CallCreateReservedEntry] :: nat call list"
  let ?ds = "[CallInsert 7, CallCreateReservedEntry, CallInsert 8] :: nat call list"
  have "case run (new_ConstantArrayBuilder 1 1 1 (0::nat)) ?ds of
      Inl e \<Rightarrow> False
    | Inr b \<Rightarrow>
        available (idx_slice b ! 0) = 0 \<and> available (idx_slice b ! 1) = 0 \<and>
        available (idx_slice b ! 2) = 0 \<and> constants_map b 9 = None"
    by (simp add: slice_defs builder_defs)
  then obtain d where rd: "run (new_ConstantArrayBuilder 1 1 1 (0::nat)) ?ds = Inr d"
    and z0: "available (idx_slice d ! 0) = 0"
    and z1: "available (idx_slice d ! 1) = 0"
    and z2: "available (idx_slice d ! 2) = 0"
    and nd: "constants_map d 9 = None"
    unfolding case_Inr_iff
    by (elim exE conjE) (rule that)
  have wfd: "builder_wf d"
    using _ rd by (rule reachable_wf) (simp add: valid_capacities_def)
  have all: "\<forall>k \<in> {0..<3}. available (idx_slice d ! k) = 0"
  proof
    fix k :: nat
    assume "k \<in> {0..<3}"
    then consider "k = 0" | "k = 1" | "k = 2"
      by force
    then show "available (idx_slice d ! k) = 0"
      using z0 z1 z2 by cases simp_all
  qed
  from new_allocation_in_narrowest_tier[OF wfd, of 9] all nd
  have full: "Insert d 9 = Inl CapacityExhausted \<and> AllocateEntry_hole d = Inl CapacityExhausted"
    by blast
  have "case run (new_ConstantArrayBuilder 2 2 4 (0::nat)) ?cs of
     Inl e \<Rightarrow> False
   | Inr b \<Rightarrow>
       available (idx_slice b ! 0) = 0 \<and> 0 < available (idx_slice b ! 1) \<and>
       constants_map b 9 = None \<and>
       (case Insert b 9 of
          Inl e \<Rightarrow> False
        | Inr (i, b') \<Rightarrow> i = 2 \<and> IndexToSlice b' i = Inr 1) \<and>
       (case AllocateEntry_hole b of Inl e \<Rightarrow> False | Inr (i, b') \<Rightarrow> i = 2)"
    by (simp add: slice_defs builder_defs)
  then obtain b b1 b2 where r: "run (new_ConstantArrayBuilder 2 2 4 (0::nat)) ?cs = Inr b"
    and a0: "available (idx_slice b ! 0) = 0"
    and a1: "0 < available (idx_slice b ! 1)"
    and n: "constants_map b 9 = None"
    and i1: "Insert b 9 = Inr (2, b1)"
    and k1: "IndexToSlice b1 2 = Inr 1"
    and i2: "AllocateEntry_hole b = Inr (2, b2)"
    unfolding case_Inr_pair_iff unfolding case_Inr_iff
    by (elim exE conjE) simp
  have wf: "builder_wf b"
    using _ r by (rule reachable_wf) (simp add: valid_capacities_def)
  have ex: "\<exists>k \<in> {0..<3}. 0 < available (idx_slice b ! k)"
    using a1 by (intro bexI[of _ 1]) simp_all
  note t = new_allocation_in_narrowest_tier[OF wf, of 9 2 b1]
  from t ex n obtain j c where "Insert b 9 = Inr (j, c)" "allocated_in_narrowest b 9 j c"
    "constants_map c = (constants_map b)(9 \<mapsto> j)"
    by blast
  with i1 have 1: "allocated_in_narrowest b 9 2 b1"
    "constants_map b1 = (constants_map b)(9 \<mapsto> 2)"
    by simp_all
  from new_allocation_in_narrowest_tier[OF wf, of 9 2 b2] i2
  have 2: "allocated_in_narrowest b (the_hole_value b) 2 b2"
    by blast
  show ?thesis
    unfolding r rd using wf a0 a1 n k1 1 2 wfd z0 z1 z2 nd full by (simp add: i1 i2)
qed

theorem Insert_idempotent_witness:
  "case Insert (new_ConstantArrayBuilder 2 2 4 (0::nat)) 7 of
     Inl e \<Rightarrow> False
   | Inr (i, b') \<Rightarrow>
       i = 0 \<and> Insert b' 7 = Inr (0, b') \<and>
       run b' (replicate 3 (CallInsert 7)) = Inr b' \<and>
       no_repoint 7 b'
         [CallInsert 8, CallCreateReservedEntry, CallInsert 9, CallInsert 7,
          CallCommitReservedEntry kShort 7] \<and>
       (case run b' [CallInsert 8, CallCreateReservedEntry, CallInsert 9, CallInsert 7,
                     CallCommitReservedEntry kShort 7] of
          Inl e \<Rightarrow> False
        | Inr b'' \<Rightarrow> Insert b'' 7 = Inr (0, b''))"
proof -
  let ?cs = "[CallInsert 8, CallCreateReservedEntry, CallInsert 9, CallInsert 7,
              CallCommitReservedEntry kShort (7::nat)]"
  have "case Insert (new_ConstantArrayBuilder 2 2 4 (0::nat)) 7 of
     Inl e \<Rightarrow> False
   | Inr (i, b') \<Rightarrow>
       i = 0 \<and> no_repoint 7 b' ?cs \<and>
       (case run b' ?cs of Inl e \<Rightarrow> False | Inr b'' \<Rightarrow> True)"
    by (simp add: slice_defs builder_defs repoints_def)
  then obtain b' b'' where 1: "Insert (new_ConstantArrayBuilder 2 2 4 (0::nat)) 7 = Inr (0, b')"
    and 3: "no_repoint 7 b' ?cs"
    and 2: "run b' ?cs = Inr b''"
    unfolding case_Inr_pair_iff unfolding case_Inr_iff
    by (elim exE conjE) simp
  from Insert_idempotent[OF 1, of 3 ?cs b''] 2 3
  have "Insert b' 7 = Inr (0, b') \<and> run b' (replicate 3 (CallInsert 7)) = Inr b' \<and>
    Insert b'' 7 = Inr (0, b'')"
    by blast
  then show ?thesis
    unfolding 1 using 3 by (simp add: 2 del: run.simps replicate.simps no_repoint.simps)
qed

theorem AllocateEntry_hole_until_filled_witness:
  "builder_wf (new_ConstantArrayBuilder 2 2 4 (0::nat)) \<and>
   (case AllocateEntry_hole (new_ConstantArrayBuilder 2 2 4 (0::nat)) of
      Inl e \<Rightarrow> False
    | Inr (i, b1) \<Rightarrow>
        i = 0 \<and> At b1 0 = Inr 0 \<and>
        (case run b1 [CallInsert 7, CallCreateReservedEntry, CallAllocateEntry,
                      CallInsertAllocatedEntry 2 9] of
           Inl e \<Rightarrow> False
         | Inr b2 \<Rightarrow>
             At b2 0 = Inr 0 \<and>
             (case InsertAllocatedEntry b2 0 5 of
                Inl e \<Rightarrow> False
              | Inr b3 \<Rightarrow> At b3 0 = Inr 5)))"
proof -
  let ?b = "new_ConstantArrayBuilder 2 2 4 (0::nat)"
  let ?cs = "[CallInsert 7, CallCreateReservedEntry, CallAllocateEntry,
              CallInsertAllocatedEntry 2 (9::nat)]"
  have wf: "builder_wf ?b"
    by (rule new_wf) (simp add: valid_capacities_def)
  have h: "the_hole_value ?b = 0"
    by (simp add: new_ConstantArrayBuilder_def)
  have "case AllocateEntry_hole ?b of
      Inl e \<Rightarrow> False
    | Inr (i, b1) \<Rightarrow> i = 0 \<and> (case run b1 ?cs of Inl e \<Rightarrow> False | Inr b2 \<Rightarrow> True)"
    by (simp add: slice_defs builder_defs)
  then obtain b1 b2 where 1: "AllocateEntry_hole ?b = Inr (0, b1)"
    and 2: "run b1 ?cs = Inr b2"
    unfolding case_Inr_pair_iff unfolding case_Inr_iff by blast
  have 3: "list_all (\<lambda>c. 0 \<notin> fill_set c) ?cs"
    by (simp add: fill_set_def)
  from AllocateEntry_hole_until_filled[OF wf, of 0 b1 ?cs b2 5] 1 2 3 h
  obtain b3 where "At b1 0 = Inr 0" "At b2 0 = Inr 0"
    "InsertAllocatedEntry b2 0 5 = Inr b3" "At b3 0 = Inr 5"
    by auto
  then show ?thesis
    using wf by (simp add: 1 2 del: run.simps)
qed

theorem InsertAllocatedEntry_bypasses_map_witness:
  "case AllocateEntry_hole (new_ConstantArrayBuilder 2 2 4 (0::nat)) of
     Inl e \<Rightarrow> False
   | Inr (i, b) \<Rightarrow>
       builder_wf b \<and> constants_map b 5 = None \<and>
       (case InsertAllocatedEntry b i 5 of
          Inl e \<Rightarrow> False
        | Inr b' \<Rightarrow>
            constants_map b' = constants_map b \<and> At b' i = Inr 5 \<and>
            (case Insert b' 5 of
               Inl e \<Rightarrow> False
             | Inr (j, b'') \<Rightarrow> j \<noteq> i \<and> At b'' j = Inr 5 \<and> At b'' i = Inr 5))"
proof -
  let ?b0 = "new_ConstantArrayBuilder 2 2 4 (0::nat)"
  have wf0: "builder_wf ?b0"
    by (rule new_wf) (simp add: valid_capacities_def)
  have "case AllocateEntry_hole ?b0 of
     Inl e \<Rightarrow> False
   | Inr (i, b) \<Rightarrow>
       constants_map b 5 = None \<and>
       (case InsertAllocatedEntry b i 5 of
          Inl e \<Rightarrow> False
        | Inr b' \<Rightarrow> (case Insert b' 5 of Inl e \<Rightarrow> False | Inr (j, b'') \<Rightarrow> True))"
    by (simp add: slice_defs builder_defs)
  then obtain i b b' j b'' where 1: "AllocateEntry_hole ?b0 = Inr (i, b)"
    and n: "constants_map b 5 = None"
    and 2: "InsertAllocatedEntry b i 5 = Inr b'"
    and 3: "Insert b' 5 = Inr (j, b'')"
    unfolding case_Inr_pair_iff unfolding case_Inr_iff by blast
  have wf: "builder_wf b"
    using 1 wf0 by (rule AllocateEntry_hole_wf)
  from InsertAllocatedEntry_bypasses_map[OF wf 2, of j b''] n 3
  have "constants_map b' = constants_map b \<and> At b' i = Inr 5 \<and>
    j \<noteq> i \<and> At b'' j = Inr 5 \<and> At b'' i = Inr 5"
    by blast
  then show ?thesis
    using wf n by (simp add: 1 2 3)
qed

theorem CommitReservedEntry_duplicates_in_reserved_tier_witness:
  "case run (new_ConstantArrayBuilder 2 2 4 (0::nat))
          [CallCreateReservedEntry, CallCreateReservedEntry, CallCreateReservedEntry,
           CallCreateReservedEntry, CallInsert 7] of
     Inl e \<Rightarrow> False
   | Inr b \<Rightarrow>
       builder_wf b \<and> operand_size (idx_slice b ! 1) = kShort \<and>
       0 < reserved (idx_slice b ! 1) \<and> constants_map b 7 = Some 4 \<and>
       IndexToSlice b 4 = Inr 2 \<and> stored b 4 = Some 7 \<and>
       (case CommitReservedEntry b kShort 7 of
          Inl e \<Rightarrow> False
        | Inr (i, b') \<Rightarrow>
            i = 2 \<and> IndexToSlice b' 2 = Inr 1 \<and> At b' 2 = Inr 7 \<and> At b' 4 = Inr 7 \<and>
            constants_map b' = (constants_map b)(7 \<mapsto> 2) \<and>
            Insert b' 7 = Inr (2, b') \<and>
            no_repoint 7 b' [CallInsert 8, CallCommitReservedEntry kShort 7] \<and>
            (case run b' [CallInsert 8, CallCommitReservedEntry kShort 7] of
               Inl e \<Rightarrow> False
             | Inr b'' \<Rightarrow> Insert b'' 7 = Inr (2, b'')))"
proof -
  let ?pre = "[CallCreateReservedEntry, CallCreateReservedEntry, CallCreateReservedEntry,
           CallCreateReservedEntry, CallInsert 7]"
  let ?post = "[CallInsert 8, CallCommitReservedEntry kShort (7::nat)]"
  have "case run (new_ConstantArrayBuilder 2 2 4 (0::nat)) ?pre of
     Inl e \<Rightarrow> False
   | Inr b \<Rightarrow>
       operand_size (idx_slice b ! 1) = kShort \<and>
       0 < reserved (idx_slice b ! 1) \<and> constants_map b 7 = Some 4 \<and>
       IndexToSlice b 4 = Inr 2 \<and> stored b 4 = Some 7 \<and>
       start_index (idx_slice b ! 1) + slice_size (idx_slice b ! 1) = 2 \<and>
       (case CommitReservedEntry b kShort 7 of
          Inl e \<Rightarrow> False
        | Inr (i, b') \<Rightarrow>
            no_repoint 7 b' ?post \<and>
            (case run b' ?post of Inl e \<Rightarrow> False | Inr b'' \<Rightarrow> True))"
    by (simp add: slice_defs builder_defs stored_def slice_stored_def repoints_def)
  then obtain b k b' b'' where 1: "run (new_ConstantArrayBuilder 2 2 4 (0::nat)) ?pre = Inr b"
    and osz: "operand_size (idx_slice b ! 1) = kShort"
    and res: "0 < reserved (idx_slice b ! 1)"
    and reg: "constants_map b 7 = Some 4"
    and tier: "IndexToSlice b 4 = Inr 2"
    and st: "stored b 4 = Some 7"
    and z: "start_index (idx_slice b ! 1) + slice_size (idx_slice b ! 1) = 2"
    and c: "CommitReservedEntry b kShort 7 = Inr (k, b')"
    and np: "no_repoint 7 b' ?post"
    and 2: "run b' ?post = Inr b''"
    unfolding case_Inr_pair_iff unfolding case_Inr_iff
    by (elim exE conjE) (rule that)
  have wf: "builder_wf b"
    using _ 1 by (rule reachable_wf) (simp add: valid_capacities_def)
  have kw: "(1::nat) < 3" and wider: "(1::nat) < 2"
    by simp_all
  from CommitReservedEntry_duplicates_in_reserved_tier[OF wf kw osz res reg tier wider]
  obtain i b2 where c2: "CommitReservedEntry b kShort 7 = Inr (i, b2)"
    and i: "i = start_index (idx_slice b ! 1) + slice_size (idx_slice b ! 1)"
    and k2: "IndexToSlice b2 i = Inr 1"
    and at: "At b2 i = Inr 7"
    and old: "\<forall>w. stored b 4 = Some w \<longrightarrow> At b2 4 = Inr w"
    and m: "constants_map b2 = (constants_map b)(7 \<mapsto> i)"
    and ins: "Insert b2 7 = Inr (i, b2)"
    and later: "\<forall>cs b''. no_repoint 7 b2 cs \<longrightarrow> run b2 cs = Inr b'' \<longrightarrow>
       Insert b'' 7 = Inr (i, b'')"
    by (elim exE conjE) (rule that)
  from c c2 have eq: "i = k" "b2 = b'"
    by simp_all
  from i z eq have k: "k = 2"
    by simp
  have "Insert b'' 7 = Inr (2, b'')"
    using later np 2 unfolding eq k by blast
  with k2 at old st m ins
  have "k = 2 \<and> IndexToSlice b' 2 = Inr 1 \<and> At b' 2 = Inr 7 \<and> At b' 4 = Inr 7 \<and>
    constants_map b' = (constants_map b)(7 \<mapsto> 2) \<and> Insert b' 7 = Inr (2, b') \<and>
    Insert b'' 7 = Inr (2, b'')"
    unfolding eq k by simp
  then show ?thesis
    unfolding 1 using wf osz res reg tier st np
    by (simp add: c 2 del: run.simps no_repoint.simps)
qed

text \<open>
  Claim C1 as stated fails in its last part. In the state after four reservations and
  \<open>Insert\<close> of 7, which lands at index 4 in the third slice, the commit for the operand
  size of the second slice returns 2 and \<open>Insert\<close> of 7 then returns 2. But a further
  commit of 7, for the operand size of the first slice, re-points 7 once more, and the
  \<open>Insert\<close> of 7 after it returns 0, not 2.
\<close>

theorem CommitReservedEntry_later_repoint_counterexample:
  "Insert_after (new_ConstantArrayBuilder 2 2 4 (0::nat))
     [CallCreateReservedEntry, CallCreateReservedEntry, CallCreateReservedEntry,
      CallCreateReservedEntry, CallInsert 7] 7 = Inr 4 \<and>
   CommitReservedEntry_after (new_ConstantArrayBuilder 2 2 4 (0::nat))
     [CallCreateReservedEntry, CallCreateReservedEntry, CallCreateReservedEntry,
      CallCreateReservedEntry, CallInsert 7] kShort 7 = Inr 2 \<and>
   Insert_after (new_ConstantArrayBuilder 2 2 4 (0::nat))
     [CallCreateReservedEntry, CallCreateReservedEntry, CallCreateReservedEntry,
      CallCreateReservedEntry, CallInsert 7, CallCommitReservedEntry kShort 7] 7 = Inr 2 \<and>
   Insert_after (new_ConstantArrayBuilder 2 2 4 (0::nat))
     [CallCreateReservedEntry, CallCreateReservedEntry, CallCreateReservedEntry,
      CallCreateReservedEntry, CallInsert 7, CallCommitReservedEntry kShort 7,
      CallCommitReservedEntry kByte 7] 7 = Inr 0"
  by (simp add: Insert_after_def CommitReservedEntry_after_def slice_defs builder_defs)

section \<open>Serialization\<close>

lemma AllElementsAreUnique_loop_distinct:
  "AllElementsAreUnique_loop cs E = (distinct cs \<and> set cs \<inter> E = {})"
  by (induction cs arbitrary: E) auto

lemma AllElementsAreUnique_distinct: "AllElementsAreUnique s = distinct (constants s)"
  by (simp add: AllElementsAreUnique_def AllElementsAreUnique_loop_distinct)

lemma copy_loop_drop:
  assumes "int (length acc + (slice_size s - k)) \<le> len" "k \<le> slice_size s"
  shows "copy_loop s len [k..<slice_size s] acc = Inr (acc @ drop k (constants s))"
  using assms
proof (induction "slice_size s - k" arbitrary: k acc)
  case 0
  then show ?case by (simp add: slice_size_def)
next
  case (Suc n)
  then have k: "k < slice_size s"
    by simp
  then have upt: "[k..<slice_size s] = k # [Suc k..<slice_size s]"
    by (simp add: upt_conv_Cons)
  have at: "Slice_At s (start_index s + k) = Inr (constants s ! k)"
    using k by (simp add: Slice_At_def)
  have set: "FixedArray_set len acc (constants s ! k) = Inr (acc @ [constants s ! k])"
    using Suc.prems k by (simp add: FixedArray_set_def)
  have ih: "copy_loop s len [Suc k..<slice_size s] (acc @ [constants s ! k]) =
    Inr ((acc @ [constants s ! k]) @ drop (Suc k) (constants s))"
    using Suc.hyps(2) Suc.prems k by (intro Suc.hyps(1)) simp_all
  have step: "copy_loop s len [k..<slice_size s] acc =
    copy_loop s len [Suc k..<slice_size s] (acc @ [constants s ! k])"
    unfolding upt by (simp add: at set)
  have d: "drop k (constants s) = constants s ! k # drop (Suc k) (constants s)"
    using k by (simp add: Cons_nth_drop_Suc slice_size_def)
  show ?case
    unfolding step ih d by simp
qed

lemma copy_loop_all:
  "int (length acc + slice_size s) \<le> len \<Longrightarrow>
   copy_loop s len [0..<slice_size s] acc = Inr (acc @ constants s)"
  using copy_loop_drop[of acc s 0 len] by simp

lemma padding_loop_replicate:
  "int (length acc + n) \<le> len \<Longrightarrow>
   padding_loop hole len n acc = Inr (acc @ replicate n hole)"
proof (induction n arbitrary: acc)
  case 0
  then show ?case by simp
next
  case (Suc n)
  have "FixedArray_set len acc hole = Inr (acc @ [hole])"
    using Suc.prems by (simp add: FixedArray_set_def)
  moreover have "padding_loop hole len n (acc @ [hole]) = Inr ((acc @ [hole]) @ replicate n hole)"
    using Suc.prems by (intro Suc.IH) simp
  ultimately show ?case
    by (simp add: replicate_app_Cons_same)
qed

lemma take_slice_padded:
  "slice_size s \<le> L \<Longrightarrow> slice_size s \<le> capacity s \<Longrightarrow>
   take L (slice_padded hole s) =
     constants s @ replicate (min (L - slice_size s) (capacity s - slice_size s)) hole"
  by (simp add: slice_padded_def slice_size_def min.commute)

lemma length_slice_padded:
  "slice_size s \<le> capacity s \<Longrightarrow> length (slice_padded hole s) = capacity s"
  by (simp add: slice_padded_def slice_size_def)

text \<open>One iteration of the loop over the slices, when it does not break.\<close>

lemma ToFixedArray_loop_step:
  assumes lt: "length acc < N"
    and pow: "length acc = 0 \<or> IsPowerOfTwo32 (static_cast_uint32_t (int (length acc)))"
    and fit: "length acc + slice_size s \<le> N"
    and cap: "slice_size s \<le> capacity s"
  shows "ToFixedArray_loop hole (int N) (s # rest) acc =
    (if AllElementsAreUnique s
     then ToFixedArray_loop hole (int N) rest
            (acc @ take (N - length acc) (slice_padded hole s))
     else Inl NonCanonicalDuplicate)"
proof (cases "AllElementsAreUnique s")
  case False
  with lt pow show ?thesis
    by auto
next
  case True
  let ?p = "min (N - (length acc + slice_size s)) (capacity s - slice_size s)"
  have c: "copy_loop s (int N) [0..<slice_size s] acc = Inr (acc @ constants s)"
    using fit by (intro copy_loop_all) simp
  have n: "nat (int N - (int (length acc) + int (length (constants s)))) =
    N - (length acc + slice_size s)"
    using fit by (simp add: slice_size_def)
  have p: "padding_loop hole (int N) ?p (acc @ constants s) =
    Inr ((acc @ constants s) @ replicate ?p hole)"
    using fit by (intro padding_loop_replicate) (simp add: slice_size_def)
  have t: "take (N - length acc) (slice_padded hole s) = constants s @ replicate ?p hole"
    using fit cap by (subst take_slice_padded) simp_all
  show ?thesis
    using lt pow True
    by (simp add: c Let_def n p t)
qed

lemma serial_ok_beyond:
  "serial_ok N ss a \<Longrightarrow> N \<le> a \<Longrightarrow> list_all (\<lambda>s. slice_size s = 0) ss"
proof (induction ss arbitrary: a)
  case Nil
  then show ?case by simp
next
  case (Cons s rest)
  from Cons.prems have "slice_size s = 0"
    by (cases "slice_size s") auto
  moreover from Cons.prems have "list_all (\<lambda>s. slice_size s = 0) rest"
    by (intro Cons.IH[of "a + capacity s"]) simp_all
  ultimately show ?case
    by simp
qed

lemma empty_unique: "slice_size s = 0 \<Longrightarrow> AllElementsAreUnique s"
  by (simp add: AllElementsAreUnique_distinct slice_size_def)

lemma all_empty_unique:
  "list_all (\<lambda>s. slice_size s = 0) ss \<Longrightarrow> list_all AllElementsAreUnique ss"
  by (induction ss) (simp_all add: empty_unique)

lemma ToFixedArray_loop_ok:
  assumes "serial_ok N ss a" "length acc = min N a" "list_all AllElementsAreUnique ss"
  shows "ToFixedArray_loop hole (int N) ss acc =
    Inr (acc @ take (N - length acc) (concat (map (slice_padded hole) ss)))"
  using assms
proof (induction ss arbitrary: a acc)
  case Nil
  then show ?case by simp
next
  case (Cons s rest)
  show ?case
  proof (cases "a < N")
    case False
    with Cons.prems(2) have "length acc = N"
      by simp
    then show ?thesis
      by simp
  next
    case True
    with Cons.prems(2) have len: "length acc = a"
      by simp
    from Cons.prems(1) have cap: "slice_size s \<le> capacity s"
      and rest: "serial_ok N rest (a + capacity s)"
      by simp_all
    from Cons.prems(1) True
    have pow: "length acc = 0 \<or> IsPowerOfTwo32 (static_cast_uint32_t (int (length acc)))"
      by (simp add: len)
    from Cons.prems(1) True have fit: "length acc + slice_size s \<le> N"
      by (cases "slice_size s") (simp_all add: len)
    let ?acc = "acc @ take (N - length acc) (slice_padded hole s)"
    have l: "length ?acc = min N (a + capacity s)"
      using True cap by (simp add: len length_slice_padded)
    have step: "ToFixedArray_loop hole (int N) (s # rest) acc =
      ToFixedArray_loop hole (int N) rest ?acc"
      using Cons.prems(3) True
      by (subst ToFixedArray_loop_step[OF _ pow fit cap]) (simp_all add: len)
    have ih: "ToFixedArray_loop hole (int N) rest ?acc =
      Inr (?acc @ take (N - length ?acc) (concat (map (slice_padded hole) rest)))"
      using Cons.prems(3) by (intro Cons.IH[OF rest l]) simp
    have "N - length ?acc = N - length acc - length (slice_padded hole s)"
      using True cap by (simp add: len length_slice_padded)
    then show ?thesis
      unfolding step ih by simp
  qed
qed

lemma ToFixedArray_loop_dup:
  assumes "serial_ok N ss a" "length acc = min N a" "\<not> list_all AllElementsAreUnique ss"
  shows "ToFixedArray_loop hole (int N) ss acc = Inl NonCanonicalDuplicate"
  using assms
proof (induction ss arbitrary: a acc)
  case Nil
  then show ?case by simp
next
  case (Cons s rest)
  have True: "a < N"
  proof (rule ccontr)
    assume "\<not> a < N"
    then have "list_all AllElementsAreUnique (s # rest)"
      using serial_ok_beyond[OF Cons.prems(1)] by (intro all_empty_unique) simp
    with Cons.prems(3) show False
      by simp
  qed
  with Cons.prems(2) have len: "length acc = a"
    by simp
  from Cons.prems(1) have cap: "slice_size s \<le> capacity s"
    and rest: "serial_ok N rest (a + capacity s)"
    by simp_all
  from Cons.prems(1) True
  have pow: "length acc = 0 \<or> IsPowerOfTwo32 (static_cast_uint32_t (int (length acc)))"
    by (simp add: len)
  from Cons.prems(1) True have fit: "length acc + slice_size s \<le> N"
    by (cases "slice_size s") (simp_all add: len)
  let ?acc = "acc @ take (N - length acc) (slice_padded hole s)"
  have l: "length ?acc = min N (a + capacity s)"
    using True cap by (simp add: len length_slice_padded)
  have lt: "length acc < N"
    using True by (simp add: len)
  show ?case
  proof (cases "AllElementsAreUnique s")
    case False
    then show ?thesis
      unfolding ToFixedArray_loop_step[OF lt pow fit cap] by simp
  next
    case u: True
    with Cons.prems(3) have "\<not> list_all AllElementsAreUnique rest"
      by simp
    from Cons.IH[OF rest l this] u show ?thesis
      unfolding ToFixedArray_loop_step[OF lt pow fit cap] by simp
  qed
qed

lemma builder_size3:
  "idx_slice b = [s0, s1, s2] \<Longrightarrow>
   builder_size b =
     (if 0 < slice_size s2 then start_index s2 + slice_size s2
      else if 0 < slice_size s1 then start_index s1 + slice_size s1
      else if 0 < slice_size s0 then start_index s0 + slice_size s0
      else 0)"
  by (simp add: builder_size_def)

lemma static_cast_uint32_t_id: "a < 2 ^ 32 \<Longrightarrow> static_cast_uint32_t (int a) = a"
proof -
  assume a: "a < 2 ^ 32"
  have "int a mod 2 ^ 32 = int (a mod 2 ^ 32)"
    by (simp add: zmod_int)
  then show ?thesis
    using a by (simp add: static_cast_uint32_t_def)
qed

lemma static_cast_int_id: "n < 2 ^ 31 \<Longrightarrow> static_cast_int n = int n"
  by (simp add: static_cast_int_def Let_def)

lemma serial_ok_builder:
  assumes wf: "builder_wf b" and al: "aligned b"
  shows "serial_ok (builder_size b) (idx_slice b) 0"
proof -
  from wf obtain s0 s1 s2 where ss: "idx_slice b = [s0, s1, s2]"
    and l: "layout [s0, s1, s2]"
    and i: "slice_inv s0" "slice_inv s1" "slice_inv s2"
    by (rule wfE)
  from al have p: "IsPowerOfTwo32 (capacity s0)" "IsPowerOfTwo32 (capacity s0 + capacity s1)"
    by (simp_all add: aligned_def ss)
  from l have lt: "capacity s0 < 2 ^ 32" "capacity s0 + capacity s1 < 2 ^ 32"
    unfolding layout3 by linarith+
  have c: "static_cast_uint32_t (int (capacity s0)) = capacity s0"
    "static_cast_uint32_t (int (capacity s0 + capacity s1)) = capacity s0 + capacity s1"
    using lt[THEN static_cast_uint32_t_id] by blast+
  from i have le: "slice_size s0 \<le> capacity s0" "slice_size s1 \<le> capacity s1"
    "slice_size s2 \<le> capacity s2"
    by (simp_all add: slice_inv_def)
  from l have st: "start_index s0 = 0" "start_index s1 = capacity s0"
    "start_index s2 = capacity s0 + capacity s1"
    by (simp_all add: layout3)
  show ?thesis
    unfolding ss builder_size3[OF ss] st
    using le p by (simp add: c[simplified])
qed

lemma builder_size_le:
  assumes wf: "builder_wf b"
  shows "builder_size b \<le>
    capacity (idx_slice b ! 0) + capacity (idx_slice b ! 1) + capacity (idx_slice b ! 2)"
proof -
  from wf obtain s0 s1 s2 where ss: "idx_slice b = [s0, s1, s2]"
    and l: "layout [s0, s1, s2]"
    and i: "slice_inv s0" "slice_inv s1" "slice_inv s2"
    by (rule wfE)
  from i have le: "slice_size s0 \<le> capacity s0" "slice_size s1 \<le> capacity s1"
    "slice_size s2 \<le> capacity s2"
    by (simp_all add: slice_inv_def)
  from l have st: "start_index s0 = 0" "start_index s1 = capacity s0"
    "start_index s2 = capacity s0 + capacity s1"
    by (simp_all add: layout3)
  show ?thesis
    unfolding builder_size3[OF ss] st ss using le by simp
qed

lemma length_serialized:
  assumes wf: "builder_wf b"
  shows "length (serialized b) = builder_size b"
proof -
  from wf obtain s0 s1 s2 where ss: "idx_slice b = [s0, s1, s2]"
    and i: "slice_inv s0" "slice_inv s1" "slice_inv s2"
    by (rule wfE)
  from i have le: "slice_size s0 \<le> capacity s0" "slice_size s1 \<le> capacity s1"
    "slice_size s2 \<le> capacity s2"
    by (simp_all add: slice_inv_def)
  show ?thesis
    using builder_size_le[OF wf] le
    by (simp add: serialized_def ss length_slice_padded)
qed

lemma ToFixedArray_ok:
  assumes wf: "builder_wf b" and al: "aligned b" and small: "builder_size b < 2 ^ 31"
    and u: "list_all AllElementsAreUnique (idx_slice b)"
  shows "ToFixedArray b = Inr (serialized b)"
proof -
  have "ToFixedArray_loop (the_hole_value b) (int (builder_size b)) (idx_slice b) [] =
    Inr (serialized b)"
    using ToFixedArray_loop_ok[OF serial_ok_builder[OF wf al] _ u, of "[]" "the_hole_value b"]
    by (simp add: serialized_def)
  then show ?thesis
    by (simp add: ToFixedArray_def static_cast_int_id[OF small] length_serialized[OF wf])
qed

lemma ToFixedArray_size_not_int:
  assumes "2 ^ 31 \<le> builder_size b" "builder_size b < 2 ^ 32"
  shows "ToFixedArray b = Inl InvalidArrayLength"
proof -
  have "static_cast_int (builder_size b) = int (builder_size b) - 2 ^ 32"
    using assms by (simp add: static_cast_int_def Let_def)
  moreover have "int (builder_size b) < 2 ^ 32"
    using assms(2) by simp
  ultimately show ?thesis
    by (simp add: ToFixedArray_def)
qed

lemma ToFixedArray_dup:
  assumes wf: "builder_wf b" and al: "aligned b" and small: "builder_size b < 2 ^ 31"
    and u: "\<not> list_all AllElementsAreUnique (idx_slice b)"
  shows "ToFixedArray b = Inl NonCanonicalDuplicate"
proof -
  have "ToFixedArray_loop (the_hole_value b) (int (builder_size b)) (idx_slice b) [] =
    Inl NonCanonicalDuplicate"
    using ToFixedArray_loop_dup[OF serial_ok_builder[OF wf al] _ u, of "[]" "the_hole_value b"]
    by simp
  then show ?thesis
    by (simp add: ToFixedArray_def static_cast_int_id[OF small])
qed

lemma slice_padded_nth:
  "slice_size s \<le> capacity s \<Longrightarrow> j < capacity s \<Longrightarrow>
   slice_padded hole s ! j = (if j < slice_size s then constants s ! j else hole)"
  by (simp add: slice_padded_def nth_append slice_size_def)

lemma stored3:
  assumes "idx_slice b = [s0, s1, s2]" "layout [s0, s1, s2]"
  shows "stored b i =
     (if i < capacity s0 then slice_stored s0 i
      else if i < capacity s0 + capacity s1 then slice_stored s1 i
      else if i < capacity s0 + capacity s1 + capacity s2 then slice_stored s2 i
      else None)"
  unfolding stored_def IndexToSlice_def assms(1) IndexToSlice3[OF assms(2)]
  by simp

lemma serialized_nth:
  assumes wf: "builder_wf b" and i: "i < builder_size b"
  shows "serialized b ! i = (case stored b i of Some v \<Rightarrow> v | None \<Rightarrow> the_hole_value b)"
proof -
  from wf obtain s0 s1 s2 where ss: "idx_slice b = [s0, s1, s2]"
    and l: "layout [s0, s1, s2]"
    and inv: "slice_inv s0" "slice_inv s1" "slice_inv s2"
    by (rule wfE)
  from inv have le: "slice_size s0 \<le> capacity s0" "slice_size s1 \<le> capacity s1"
    "slice_size s2 \<le> capacity s2"
    by (simp_all add: slice_inv_def)
  from l have st: "start_index s0 = 0" "start_index s1 = capacity s0"
    "start_index s2 = capacity s0 + capacity s1"
    by (simp_all add: layout3)
  let ?h = "the_hole_value b"
  have tot: "i < capacity s0 + capacity s1 + capacity s2"
    using i builder_size_le[OF wf] by (simp add: ss)
  have n: "serialized b ! i = (slice_padded ?h s0 @ slice_padded ?h s1 @ slice_padded ?h s2) ! i"
    unfolding serialized_def ss using i by (subst nth_take) simp_all
  consider "i < capacity s0"
    | "capacity s0 \<le> i" "i < capacity s0 + capacity s1"
    | "capacity s0 + capacity s1 \<le> i"
    by linarith
  then show ?thesis
  proof cases
    case 1
    then show ?thesis
      unfolding n stored3[OF ss l]
      using le by (simp add: nth_append length_slice_padded slice_padded_nth
          slice_stored_def st)
  next
    case 2
    then have "i - capacity s0 < capacity s1"
      by simp
    with 2 show ?thesis
      unfolding n stored3[OF ss l]
      using le by (auto simp: nth_append length_slice_padded slice_padded_nth
          slice_stored_def st)
  next
    case 3
    with tot have "i - capacity s0 - capacity s1 < capacity s2"
      by simp
    with 3 tot show ?thesis
      unfolding n stored3[OF ss l]
      using le by (auto simp: nth_append length_slice_padded slice_padded_nth
          slice_stored_def st)
  qed
qed

text \<open>
  Claim C2, as amended. In a well-formed builder whose slices start at powers of two,
  whose size is below \<open>2 ^ 31\<close> and whose slices each hold pairwise distinct values,
  \<open>ToFixedArray\<close> returns a sequence of length \<open>builder_size\<close>. For every index \<open>i\<close> below
  the size, the entry at \<open>i\<close> is the value stored at \<open>i\<close>, which \<open>At\<close> returns too, or the
  hole when no value is stored at \<open>i\<close>; and whenever \<open>At\<close> of \<open>i\<close> returns a value, it is
  the entry at \<open>i\<close>.
\<close>

theorem ToFixedArray_consistent:
  assumes wf: "builder_wf b" and al: "aligned b" and small: "builder_size b < 2 ^ 31"
    and u: "list_all AllElementsAreUnique (idx_slice b)"
  shows "ToFixedArray b = Inr (serialized b) \<and>
    length (serialized b) = builder_size b \<and>
    (\<forall>i < builder_size b.
       (\<forall>v. stored b i = Some v \<longrightarrow> At b i = Inr v \<and> serialized b ! i = v) \<and>
       (stored b i = None \<longrightarrow> serialized b ! i = the_hole_value b) \<and>
       (\<forall>v. At b i = Inr v \<longrightarrow> serialized b ! i = v))"
proof -
  have 1: "ToFixedArray b = Inr (serialized b)"
    using wf al small u by (rule ToFixedArray_ok)
  have 2: "length (serialized b) = builder_size b"
    using wf by (rule length_serialized)
  have 3: "(\<forall>v. stored b i = Some v \<longrightarrow> At b i = Inr v \<and> serialized b ! i = v) \<and>
       (stored b i = None \<longrightarrow> serialized b ! i = the_hole_value b) \<and>
       (\<forall>v. At b i = Inr v \<longrightarrow> serialized b ! i = v)"
    if i: "i < builder_size b" for i
  proof -
    note n = serialized_nth[OF wf i]
    have a: "At b i = Inr v \<and> serialized b ! i = v" if "stored b i = Some v" for v
      using that n At_stored_Some[OF wf that] by simp
    have b: "serialized b ! i = the_hole_value b" if "stored b i = None"
      using that n by simp
    have c: "serialized b ! i = v" if "At b i = Inr v" for v
    proof (cases "stored b i")
      case None
      with that have "v = the_hole_value b"
        by (auto simp: At_stored[OF wf] stored_def split: sum.splits if_splits)
      with b[OF None] show ?thesis
        by simp
    next
      case (Some w)
      with a[OF Some] that show ?thesis
        by simp
    qed
    from a b c show ?thesis
      by blast
  qed
  from 1 2 3 show ?thesis
    by blast
qed

lemma two_holes_not_unique:
  assumes "i < j" "j < slice_size s" "constants s ! i = h" "constants s ! j = h"
  shows "\<not> AllElementsAreUnique s"
proof -
  from assms have "i < length (constants s)" "j < length (constants s)" "i \<noteq> j"
    "constants s ! i = constants s ! j"
    by (simp_all add: slice_size_def)
  then show ?thesis
    unfolding AllElementsAreUnique_distinct by (auto simp: distinct_conv_nth)
qed

lemma new_run_two_holes:
  assumes "2 \<le> k8"
  shows "run (new_ConstantArrayBuilder k8 k16 k32 hole) [CallAllocateEntry, CallAllocateEntry] =
    Inr \<lparr>the_hole_value = hole, constants_map = Map.empty,
         idx_slice =
           [\<lparr>start_index = 0, capacity = k8, reserved = 0, operand_size = kByte,
             constants = [hole, hole]\<rparr>,
            new_ConstantArraySlice k8 k16 kShort,
            new_ConstantArraySlice (k8 + k16) k32 kQuad]\<rparr>"
  using assms
  by (simp add: new_ConstantArrayBuilder_def AllocateEntry_hole_def AllocateIndex_def
      new_ConstantArraySlice_def available_def slice_size_def Allocate_def Let_def
      static_cast_index_t_def)

lemma aligned_new:
  "IsPowerOfTwo32 k8 \<Longrightarrow> IsPowerOfTwo32 (k8 + k16) \<Longrightarrow>
   aligned (new_ConstantArrayBuilder k8 k16 k32 hole)"
  by (simp add: aligned_def new_ConstantArrayBuilder_def new_ConstantArraySlice_def)

lemma aligned_extends:
  assumes "builder_extends X b b'" "layout (idx_slice b)" "aligned b"
  shows "aligned b'"
proof -
  from assms(2) have "length (idx_slice b) = 3"
    by (simp add: layout_def)
  with assms(1) have "capacity (idx_slice b' ! 0) = capacity (idx_slice b ! 0)"
    "capacity (idx_slice b' ! 1) = capacity (idx_slice b ! 1)"
    by (simp_all add: builder_extends_def list_all2_conv_all_nth slice_extends_def)
  with assms(3) show ?thesis
    by (simp add: aligned_def)
qed

lemma reachable_aligned:
  assumes "valid_capacities k8 k16 k32" "IsPowerOfTwo32 k8" "IsPowerOfTwo32 (k8 + k16)"
    and "run (new_ConstantArrayBuilder k8 k16 k32 hole) cs = Inr b"
  shows "aligned b"
proof -
  have "layout (idx_slice (new_ConstantArrayBuilder k8 k16 k32 hole))"
    using new_wf[OF assms(1), of hole] by (simp add: builder_wf_def)
  with run_extends[OF assms(4)] show ?thesis
    using aligned_new[OF assms(2,3)] by (rule aligned_extends)
qed

text \<open>
  Claim C10. When a slice of a well-formed builder (slices starting at powers of two,
  size below \<open>2 ^ 31\<close>) holds the hole at two positions, \<open>AllElementsAreUnique\<close> is false of
  it and \<open>ToFixedArray\<close> ends in the fatal \<open>NonCanonicalDuplicate\<close> check. Such a state is
  reached with public calls only: two \<open>AllocateEntry\<close> calls without an object on the
  new builder, for any capacities with room for two entries in the first slice.
\<close>

theorem unfilled_holes_break_serialization:
  "(builder_wf (b :: 'a ConstantArrayBuilder) \<longrightarrow> aligned b \<longrightarrow> builder_size b < 2 ^ 31 \<longrightarrow>
      k < 3 \<longrightarrow> i < j \<longrightarrow> j < slice_size (idx_slice b ! k) \<longrightarrow>
      constants (idx_slice b ! k) ! i = the_hole_value b \<longrightarrow>
      constants (idx_slice b ! k) ! j = the_hole_value b \<longrightarrow>
      \<not> AllElementsAreUnique (idx_slice b ! k) \<and>
      ToFixedArray b = Inl NonCanonicalDuplicate) \<and>
   (valid_capacities k8 k16 k32 \<longrightarrow> IsPowerOfTwo32 k8 \<longrightarrow> IsPowerOfTwo32 (k8 + k16) \<longrightarrow>
      2 \<le> k8 \<longrightarrow>
      (\<exists>b2. run (new_ConstantArrayBuilder k8 k16 k32 (hole :: 'a))
               [CallAllocateEntry, CallAllocateEntry] = Inr b2 \<and>
            At b2 0 = Inr hole \<and> At b2 1 = Inr hole \<and>
            ToFixedArray b2 = Inl NonCanonicalDuplicate))"
proof -
  have 1: "\<not> AllElementsAreUnique (idx_slice b ! k) \<and>
      ToFixedArray b = Inl NonCanonicalDuplicate"
    if wf: "builder_wf b" and al: "aligned b" and small: "builder_size b < 2 ^ 31"
      and k: "k < 3" and ij: "i < j" "j < slice_size (idx_slice b ! k)"
      and h: "constants (idx_slice b ! k) ! i = the_hole_value b"
        "constants (idx_slice b ! k) ! j = the_hole_value b"
    for b :: "'a ConstantArrayBuilder" and k i j
  proof -
    have n: "\<not> AllElementsAreUnique (idx_slice b ! k)"
      using ij h by (rule two_holes_not_unique)
    from wf have "length (idx_slice b) = 3"
      by (simp add: builder_wf_def layout_def)
    with k n have "\<not> list_all AllElementsAreUnique (idx_slice b)"
      by (auto simp: list_all_length)
    with n ToFixedArray_dup[OF wf al small] show ?thesis
      by simp
  qed
  have 2: "\<exists>b2. run (new_ConstantArrayBuilder k8 k16 k32 hole)
               [CallAllocateEntry, CallAllocateEntry] = Inr b2 \<and>
            At b2 0 = Inr hole \<and> At b2 1 = Inr hole \<and>
            ToFixedArray b2 = Inl NonCanonicalDuplicate"
    if v: "valid_capacities k8 k16 k32" and p: "IsPowerOfTwo32 k8" "IsPowerOfTwo32 (k8 + k16)"
      and k8: "2 \<le> k8"
  proof -
    let ?b2 = "\<lparr>the_hole_value = hole, constants_map = Map.empty,
         idx_slice =
           [\<lparr>start_index = 0, capacity = k8, reserved = 0, operand_size = kByte,
             constants = [hole, hole]\<rparr>,
            new_ConstantArraySlice k8 k16 kShort,
            new_ConstantArraySlice (k8 + k16) k32 kQuad]\<rparr>"
    have r: "run (new_ConstantArrayBuilder k8 k16 k32 hole)
               [CallAllocateEntry, CallAllocateEntry] = Inr ?b2"
      using k8 by (rule new_run_two_holes)
    have wf: "builder_wf ?b2"
      using v r by (rule reachable_wf)
    have al: "aligned ?b2"
      using v p r by (rule reachable_aligned)
    have sz: "builder_size ?b2 = 2"
      by (simp add: builder_size_def slice_size_def new_ConstantArraySlice_def)
    have st: "stored ?b2 0 = Some hole" "stored ?b2 1 = Some hole"
      using k8
      by (simp_all add: stored_def IndexToSlice_def max_index_def slice_stored_def
          slice_size_def)
    have "ToFixedArray ?b2 = Inl NonCanonicalDuplicate"
      using 1[OF wf al, of 0 0 1] by (simp add: sz slice_size_def)
    with r st[THEN At_stored_Some[OF wf]] show ?thesis
      by blast
  qed
  from 1 2 show ?thesis
    by blast
qed

section \<open>The size\<close>

lemma size_scan_wf:
  assumes "builder_wf b"
  shows "builder_size b =
     (if 0 < slice_size (idx_slice b ! 2)
      then start_index (idx_slice b ! 2) + slice_size (idx_slice b ! 2)
      else if 0 < slice_size (idx_slice b ! 1)
      then start_index (idx_slice b ! 1) + slice_size (idx_slice b ! 1)
      else if 0 < slice_size (idx_slice b ! 0)
      then start_index (idx_slice b ! 0) + slice_size (idx_slice b ! 0)
      else 0)"
proof -
  from assms obtain s0 s1 s2 where ss: "idx_slice b = [s0, s1, s2]"
    by (rule wfE)
  show ?thesis
    unfolding builder_size3[OF ss] by (simp add: ss)
qed

lemma packed_size:
  assumes wf: "builder_wf b" and p: "packed c0 c1 c2 b n"
  shows "builder_size b = n"
proof -
  from wf obtain s0 s1 s2 where ss: "idx_slice b = [s0, s1, s2]"
    and l: "layout [s0, s1, s2]"
    by (rule wfE)
  from p have c: "capacity s0 = c0" "capacity s1 = c1" "capacity s2 = c2"
    and sz: "slice_size s0 = min n c0" "slice_size s1 = min (n - c0) c1"
      "slice_size s2 = n - c0 - c1"
    by (simp_all add: packed_def ss)
  from l have st: "start_index s0 = 0" "start_index s1 = c0" "start_index s2 = c0 + c1"
    and pos: "0 < c0" "0 < c1"
    by (simp_all add: layout3 c)
  show ?thesis
    unfolding builder_size3[OF ss] st sz using pos by (auto simp: min_def)
qed

lemma packed_Insert:
  assumes wf: "builder_wf b" and p: "packed c0 c1 c2 b n"
    and n: "constants_map b v = None" and ins: "Insert b v = Inr (i, b')"
  shows "packed c0 c1 c2 b' (Suc n) \<and> i = n"
proof -
  from wf obtain s0 s1 s2 where ss: "idx_slice b = [s0, s1, s2]"
    and l: "layout [s0, s1, s2]"
    by (rule wfE)
  from p have c: "capacity s0 = c0" "capacity s1 = c1" "capacity s2 = c2"
    and r: "reserved s0 = 0" "reserved s1 = 0" "reserved s2 = 0"
    and sz: "slice_size s0 = min n c0" "slice_size s1 = min (n - c0) c1"
      "slice_size s2 = n - c0 - c1"
    and tot: "n \<le> c0 + c1 + c2"
    by (simp_all add: packed_def ss)
  from l have st: "start_index s0 = 0" "start_index s1 = c0" "start_index s2 = c0 + c1"
    and pos: "0 < c0" "0 < c1" "0 < c2"
    by (simp_all add: layout3 c)
  have av: "available s0 = c0 - min n c0" "available s1 = c1 - min (n - c0) c1"
    "available s2 = c2 - (n - c0 - c1)"
    by (simp_all add: available_def c r sz)
  from Insert_narrowest[OF wf n ins] obtain k where k: "k < 3"
    and a: "0 < available (idx_slice b ! k)"
    and z: "\<forall>j < k. available (idx_slice b ! j) = 0"
    and i: "i = start_index (idx_slice b ! k) + slice_size (idx_slice b ! k)"
    and b': "idx_slice b' = (idx_slice b)[k := append_constant (idx_slice b ! k) v]"
    by (auto simp: allocated_in_narrowest_def)
  have ap: "capacity (append_constant s v) = capacity s"
    "reserved (append_constant s v) = reserved s"
    "slice_size (append_constant s v) = Suc (slice_size s)" for s :: "'a ConstantArraySlice"
    by (simp_all add: append_constant_def slice_size_def)
  consider "k = 0" | "k = 1" | "k = 2"
    using k by linarith
  then show ?thesis
  proof cases
    case 1
    with a have "n < c0"
      by (simp add: ss av)
    with 1 tot pos show ?thesis
      by (auto simp: packed_def b' ss ap c r sz i st)
  next
    case 2
    with a z have "c0 \<le> n" "n - c0 < c1"
      using pos by (auto simp: ss av min_def split: if_splits)
    with 2 tot pos show ?thesis
      by (auto simp: packed_def b' ss ap c r sz i st)
  next
    case 3
    with z have "available s0 = 0" "available s1 = 0"
      by (auto simp: ss dest: spec[of _ 0] spec[of _ 1])
    then have "c0 \<le> n" "c1 \<le> n - c0"
      using pos by (auto simp: av min_def split: if_splits)
    moreover from 3 a have "n - c0 - c1 < c2"
      by (simp add: ss av)
    ultimately show ?thesis
      using 3 by (auto simp: packed_def b' ss ap c r sz i st)
  qed
qed

lemma packed_Insert_succeeds:
  assumes wf: "builder_wf b" and p: "packed c0 c1 c2 b n" and lt: "n < c0 + c1 + c2"
  shows "\<exists>i b'. Insert b v = Inr (i, b')"
proof (cases "constants_map b v")
  case (Some i)
  then show ?thesis
    by (simp add: Insert_def)
next
  case None
  from wf obtain s0 s1 s2 where ss: "idx_slice b = [s0, s1, s2]"
    by (rule wfE)
  from p have c: "capacity s0 = c0" "capacity s1 = c1" "capacity s2 = c2"
    and r: "reserved s0 = 0" "reserved s1 = 0" "reserved s2 = 0"
    and sz: "slice_size s0 = min n c0" "slice_size s1 = min (n - c0) c1"
      "slice_size s2 = n - c0 - c1"
    by (simp_all add: packed_def ss)
  have av: "available s0 = c0 - min n c0" "available s1 = c1 - min (n - c0) c1"
    "available s2 = c2 - (n - c0 - c1)"
    by (simp_all add: available_def c r sz)
  have "\<exists>k < 3. 0 < available (idx_slice b ! k)"
  proof (cases "n < c0")
    case True
    then show ?thesis
      by (intro exI[of _ 0]) (simp add: ss av)
  next
    case False
    show ?thesis
    proof (cases "n - c0 < c1")
      case True
      then show ?thesis
        by (intro exI[of _ 1]) (simp add: ss av)
    next
      case False
      with \<open>\<not> n < c0\<close> lt show ?thesis
        by (intro exI[of _ 2]) (simp add: ss av)
    qed
  qed
  then obtain k where "k < 3" "0 < available (idx_slice b ! k)"
    by blast
  from AllocateIndex_succeeds[OF wf this, of v] show ?thesis
    using None by (auto simp: Insert_def AllocateEntry_def)
qed

lemma Insert_dom:
  "Insert b v = Inr (i, b') \<Longrightarrow> dom (constants_map b') = insert v (dom (constants_map b))"
  by (auto simp: Insert_def AllocateEntry_def split: option.splits sum.splits if_splits
      dest!: AllocateIndex_map)

lemma run_inserts_packed:
  assumes "builder_wf b" "packed c0 c1 c2 b n" "distinct vs"
    "set vs \<inter> dom (constants_map b) = {}"
  shows "(n + length vs \<le> c0 + c1 + c2 \<longrightarrow> (\<exists>b'. run b (map CallInsert vs) = Inr b')) \<and>
    (\<forall>b'. run b (map CallInsert vs) = Inr b' \<longrightarrow>
       builder_wf b' \<and> packed c0 c1 c2 b' (n + length vs))"
  using assms
proof (induction vs arbitrary: b n)
  case Nil
  then show ?case by simp
next
  case (Cons v vs)
  from Cons.prems(4) have none: "constants_map b v = None"
    by auto
  have step: "builder_wf b1 \<and> packed c0 c1 c2 b1 (Suc n) \<and>
    set vs \<inter> dom (constants_map b1) = {}"
    if "Insert b v = Inr (i, b1)" for i b1
    using packed_Insert[OF Cons.prems(1,2) none that] Insert_wf[OF that Cons.prems(1)]
      Insert_dom[OF that] Cons.prems(3,4)
    by auto
  have 1: "\<exists>b'. run b (map CallInsert (v # vs)) = Inr b'"
    if le: "n + length (v # vs) \<le> c0 + c1 + c2"
  proof -
    from le have "n < c0 + c1 + c2"
      by simp
    from packed_Insert_succeeds[OF Cons.prems(1,2) this, of v]
    obtain i b1 where b1: "Insert b v = Inr (i, b1)"
      by blast
    from step[OF b1] Cons.prems(3) le
    have "\<exists>b'. run b1 (map CallInsert vs) = Inr b'"
      using Cons.IH[of b1 "Suc n"] by simp
    then show ?thesis
      by (simp add: b1)
  qed
  have 2: "builder_wf b' \<and> packed c0 c1 c2 b' (n + length (v # vs))"
    if r: "run b (map CallInsert (v # vs)) = Inr b'" for b'
  proof -
    from r obtain i b1 where b1: "Insert b v = Inr (i, b1)"
      and r1: "run b1 (map CallInsert vs) = Inr b'"
      by (auto simp: map_sum_def split: sum.splits)
    from step[OF b1] Cons.prems(3) r1 show ?thesis
      using Cons.IH[of b1 "Suc n"] by simp
  qed
  from 1 2 show ?case
    by blast
qed

lemma packed_new:
  "valid_capacities k8 k16 k32 \<Longrightarrow>
   packed k8 k16 k32 (new_ConstantArrayBuilder k8 k16 k32 hole) 0"
  by (simp add: packed_def new_ConstantArrayBuilder_def new_ConstantArraySlice_def
      slice_size_def)

text \<open>
  Claim C5. In a well-formed builder \<open>builder_size\<close> is the start index plus the
  committed count of the last slice that holds a value, and zero when no slice holds
  one. After the \<open>Insert\<close> of \<open>N\<close> pairwise distinct values into the new builder, with no
  reservation, the size is \<open>N\<close>; these calls all succeed when \<open>N\<close> is at most the total
  capacity.
\<close>

theorem builder_size_scan:
  "(builder_wf b \<longrightarrow>
      builder_size b =
        (if 0 < slice_size (idx_slice b ! 2)
         then start_index (idx_slice b ! 2) + slice_size (idx_slice b ! 2)
         else if 0 < slice_size (idx_slice b ! 1)
         then start_index (idx_slice b ! 1) + slice_size (idx_slice b ! 1)
         else if 0 < slice_size (idx_slice b ! 0)
         then start_index (idx_slice b ! 0) + slice_size (idx_slice b ! 0)
         else 0)) \<and>
   (valid_capacities k8 k16 k32 \<longrightarrow> distinct vs \<longrightarrow>
      (length vs \<le> k8 + k16 + k32 \<longrightarrow>
         (\<exists>b'. run (new_ConstantArrayBuilder k8 k16 k32 hole) (map CallInsert vs) = Inr b')) \<and>
      (\<forall>b'. run (new_ConstantArrayBuilder k8 k16 k32 hole) (map CallInsert vs) = Inr b' \<longrightarrow>
         builder_size b' = length vs))"
proof -
  have 1: "(length vs \<le> k8 + k16 + k32 \<longrightarrow>
         (\<exists>b'. run (new_ConstantArrayBuilder k8 k16 k32 hole) (map CallInsert vs) = Inr b')) \<and>
      (\<forall>b'. run (new_ConstantArrayBuilder k8 k16 k32 hole) (map CallInsert vs) = Inr b' \<longrightarrow>
         builder_size b' = length vs)"
    if v: "valid_capacities k8 k16 k32" and d: "distinct vs"
  proof -
    have e: "set vs \<inter> dom (constants_map (new_ConstantArrayBuilder k8 k16 k32 hole)) = {}"
      by (simp add: new_ConstantArrayBuilder_def)
    from run_inserts_packed[OF new_wf[OF v] packed_new[OF v] d e]
    show ?thesis
      by (auto dest: packed_size)
  qed
  from size_scan_wf 1 show ?thesis
    by blast
qed

section \<open>Concrete serializations and sizes\<close>

lemma IsPowerOfTwo32_power: "k < 32 \<Longrightarrow> IsPowerOfTwo32 (2 ^ k)"
  by (simp add: IsPowerOfTwo32_def)

lemma IsPowerOfTwo32_2: "IsPowerOfTwo32 2"
  using IsPowerOfTwo32_power[of 1] by simp

lemma IsPowerOfTwo32_4: "IsPowerOfTwo32 4"
  using IsPowerOfTwo32_power[of 2] by simp

lemma IsPowerOfTwo32_8: "IsPowerOfTwo32 8"
  using IsPowerOfTwo32_power[of 3] by simp

theorem ToFixedArray_consistent_witness:
  "case run (new_ConstantArrayBuilder 2 2 4 (0::nat))
          [CallCreateReservedEntry, CallCreateReservedEntry, CallInsert 7,
           CallDiscardReservedEntry kByte, CallInsert 8] of
     Inl e \<Rightarrow> False
   | Inr b \<Rightarrow>
       builder_wf b \<and> aligned b \<and> builder_size b < 2 ^ 31 \<and>
       list_all AllElementsAreUnique (idx_slice b) \<and>
       builder_size b = 3 \<and> stored b 0 = Some 8 \<and> stored b 1 = None \<and>
       stored b 2 = Some 7 \<and>
       ToFixedArray b = Inr (serialized b) \<and> length (serialized b) = 3 \<and>
       serialized b ! 0 = 8 \<and> At b 0 = Inr 8 \<and>
       serialized b ! 1 = 0 \<and>
       serialized b ! 2 = 7 \<and> At b 2 = Inr 7"
proof -
  let ?cs = "[CallCreateReservedEntry, CallCreateReservedEntry, CallInsert 7,
           CallDiscardReservedEntry kByte, CallInsert (8::nat)]"
  have "case run (new_ConstantArrayBuilder 2 2 4 (0::nat)) ?cs of
     Inl e \<Rightarrow> False
   | Inr b \<Rightarrow>
       the_hole_value b = 0 \<and> builder_size b = 3 \<and>
       list_all AllElementsAreUnique (idx_slice b) \<and>
       stored b 0 = Some 8 \<and> stored b 1 = None \<and> stored b 2 = Some 7"
    by (simp add: slice_defs builder_defs stored_def slice_stored_def
        AllElementsAreUnique_distinct)
  then obtain b where r: "run (new_ConstantArrayBuilder 2 2 4 (0::nat)) ?cs = Inr b"
    and h: "the_hole_value b = 0"
    and sz: "builder_size b = 3"
    and u: "list_all AllElementsAreUnique (idx_slice b)"
    and st: "stored b 0 = Some 8" "stored b 1 = None" "stored b 2 = Some 7"
    unfolding case_Inr_iff by (elim exE conjE) (rule that)
  have v: "valid_capacities 2 2 4"
    by (simp add: valid_capacities_def)
  have wf: "builder_wf b"
    using v r by (rule reachable_wf)
  have al: "aligned b"
    using v IsPowerOfTwo32_2 _ r by (rule reachable_aligned) (simp add: IsPowerOfTwo32_4)
  have small: "builder_size b < 2 ^ 31"
    by (simp add: sz)
  from ToFixedArray_consistent[OF wf al small u] st h
  have "ToFixedArray b = Inr (serialized b) \<and> length (serialized b) = 3 \<and>
       serialized b ! 0 = 8 \<and> At b 0 = Inr 8 \<and> serialized b ! 1 = 0 \<and>
       serialized b ! 2 = 7 \<and> At b 2 = Inr 7"
    by (simp add: sz)
  then show ?thesis
    using wf al small u sz st by (simp add: r del: run.simps)
qed

text \<open>
  Claim C2 as stated, for every reachable state, fails: \<open>Insert\<close> of a value, an
  \<open>AllocateEntry\<close> without an object and \<open>InsertAllocatedEntry\<close> of the same value reach a
  state of size 2 whose first slice holds the value twice, and \<open>ToFixedArray\<close> ends in
  the fatal \<open>NonCanonicalDuplicate\<close> check instead of producing a sequence.
\<close>

theorem ToFixedArray_reachable_duplicate_counterexample:
  "size_after (new_ConstantArrayBuilder 2 2 4 (0::nat))
     [CallInsert 7, CallAllocateEntry, CallInsertAllocatedEntry 1 7] = Inr 2 \<and>
   ToFixedArray_after (new_ConstantArrayBuilder 2 2 4 (0::nat))
     [CallInsert 7, CallAllocateEntry, CallInsertAllocatedEntry 1 7] =
   Inl NonCanonicalDuplicate"
  by (simp add: size_after_def ToFixedArray_after_def slice_defs builder_defs
      ToFixedArray_def static_cast_int_def)

theorem unfilled_holes_break_serialization_witness:
  "valid_capacities 2 2 4 \<and> IsPowerOfTwo32 2 \<and> IsPowerOfTwo32 (2 + 2) \<and>
   (case run (new_ConstantArrayBuilder 2 2 4 (0::nat))
           [CallAllocateEntry, CallAllocateEntry] of
      Inl e \<Rightarrow> False
    | Inr b \<Rightarrow>
        builder_wf b \<and> aligned b \<and> builder_size b < 2 ^ 31 \<and>
        1 < slice_size (idx_slice b ! 0) \<and>
        constants (idx_slice b ! 0) ! 0 = the_hole_value b \<and>
        constants (idx_slice b ! 0) ! 1 = the_hole_value b \<and>
        \<not> AllElementsAreUnique (idx_slice b ! 0) \<and>
        ToFixedArray b = Inl NonCanonicalDuplicate)"
proof -
  let ?cs = "[CallAllocateEntry, CallAllocateEntry] :: nat call list"
  have v: "valid_capacities 2 2 4"
    by (simp add: valid_capacities_def)
  have p: "IsPowerOfTwo32 2" "IsPowerOfTwo32 (2 + 2)"
    by (simp_all add: IsPowerOfTwo32_2 IsPowerOfTwo32_4)
  have "case run (new_ConstantArrayBuilder 2 2 4 (0::nat)) ?cs of
      Inl e \<Rightarrow> False
    | Inr b \<Rightarrow>
        builder_size b < 2 ^ 31 \<and> 1 < slice_size (idx_slice b ! 0) \<and>
        constants (idx_slice b ! 0) ! 0 = the_hole_value b \<and>
        constants (idx_slice b ! 0) ! 1 = the_hole_value b"
    by (simp add: slice_defs builder_defs)
  then obtain b where r: "run (new_ConstantArrayBuilder 2 2 4 (0::nat)) ?cs = Inr b"
    and small: "builder_size b < 2 ^ 31"
    and j: "1 < slice_size (idx_slice b ! 0)"
    and h: "constants (idx_slice b ! 0) ! 0 = the_hole_value b"
      "constants (idx_slice b ! 0) ! 1 = the_hole_value b"
    unfolding case_Inr_iff by (elim exE conjE) (rule that)
  have wf: "builder_wf b"
    using v r by (rule reachable_wf)
  have al: "aligned b"
    using v p r by (rule reachable_aligned)
  from unfilled_holes_break_serialization[of b 0 0 1 2 2 4 0] wf al small j h
  have "\<not> AllElementsAreUnique (idx_slice b ! 0) \<and>
        ToFixedArray b = Inl NonCanonicalDuplicate"
    by simp
  then show ?thesis
    using v p wf al small j h by (simp add: r del: run.simps)
qed

theorem builder_size_scan_witness:
  "valid_capacities 4 4 8 \<and> distinct [1, 2, 3, 4, 5 :: nat] \<and>
   (case run (new_ConstantArrayBuilder 4 4 8 (0::nat)) (map CallInsert [1, 2, 3, 4, 5]) of
      Inl e \<Rightarrow> False
    | Inr b \<Rightarrow>
        builder_wf b \<and> builder_size b = 5 \<and>
        builder_size b = start_index (idx_slice b ! 1) + slice_size (idx_slice b ! 1))"
proof -
  let ?vs = "[1, 2, 3, 4, 5 :: nat]"
  have v: "valid_capacities 4 4 8"
    by (simp add: valid_capacities_def)
  have d: "distinct ?vs"
    by simp
  have len: "length ?vs \<le> 4 + 4 + 8"
    by simp
  note t = builder_size_scan[of _ 4 4 8 ?vs 0, THEN conjunct2, rule_format, OF v d]
  from t[THEN conjunct1, rule_format, OF len]
  obtain b where r: "run (new_ConstantArrayBuilder 4 4 8 (0::nat)) (map CallInsert ?vs) = Inr b"
    by (elim exE)
  from t[THEN conjunct2, rule_format, OF r] have sz: "builder_size b = 5"
    by simp
  have wf: "builder_wf b"
    using v r by (rule reachable_wf)
  have "case run (new_ConstantArrayBuilder 4 4 8 (0::nat)) (map CallInsert ?vs) of
      Inl e \<Rightarrow> False
    | Inr b \<Rightarrow> slice_size (idx_slice b ! 2) = 0 \<and> 0 < slice_size (idx_slice b ! 1)"
    by (simp add: slice_defs builder_defs)
  then have s: "slice_size (idx_slice b ! 2) = 0" "0 < slice_size (idx_slice b ! 1)"
    unfolding r by simp_all
  from builder_size_scan[of b, THEN conjunct1, rule_format, OF wf] s
  have "builder_size b = start_index (idx_slice b ! 1) + slice_size (idx_slice b ! 1)"
    by simp
  then show ?thesis
    unfolding r using v wf sz by simp
qed

section \<open>The capacity check of At\<close>

text \<open>
  \<open>At\<close> checks an uncommitted index against the capacity of its slice. In this
  reachable state of size 5 the index 3 is an uncommitted slot of the second slice,
  whose capacity is 2: the serialized array holds the hole there, and \<open>At\<close> of 3 ends
  in the failed check.
\<close>

lemma serialized_hole_where_At_fails:
  "case run (new_ConstantArrayBuilder 2 2 4 (0::nat))
          [CallCreateReservedEntry, CallCreateReservedEntry, CallInsert 7,
           CallCreateReservedEntry, CallInsert 8] of
     Inl e \<Rightarrow> False
   | Inr b \<Rightarrow>
       builder_size b = 5 \<and> ToFixedArray b = Inr (serialized b) \<and>
       serialized b ! 3 = 0 \<and> At b 3 = Inl IndexNotBelowCapacity"
proof -
  let ?cs = "[CallCreateReservedEntry, CallCreateReservedEntry, CallInsert 7,
           CallCreateReservedEntry, CallInsert (8::nat)]"
  have "case run (new_ConstantArrayBuilder 2 2 4 (0::nat)) ?cs of
     Inl e \<Rightarrow> False
   | Inr b \<Rightarrow>
       the_hole_value b = 0 \<and> builder_size b = 5 \<and>
       list_all AllElementsAreUnique (idx_slice b) \<and>
       stored b 3 = None \<and> At b 3 = Inl IndexNotBelowCapacity"
    by (simp add: slice_defs builder_defs stored_def slice_stored_def
        AllElementsAreUnique_distinct)
  then obtain b where r: "run (new_ConstantArrayBuilder 2 2 4 (0::nat)) ?cs = Inr b"
    and h: "the_hole_value b = 0"
    and sz: "builder_size b = 5"
    and u: "list_all AllElementsAreUnique (idx_slice b)"
    and st: "stored b 3 = None"
    and at: "At b 3 = Inl IndexNotBelowCapacity"
    unfolding case_Inr_iff by (elim exE conjE) (rule that)
  have v: "valid_capacities 2 2 4"
    by (simp add: valid_capacities_def)
  have wf: "builder_wf b"
    using v r by (rule reachable_wf)
  have al: "aligned b"
    using v IsPowerOfTwo32_2 _ r by (rule reachable_aligned) (simp add: IsPowerOfTwo32_4)
  have "ToFixedArray b = Inr (serialized b)"
    using wf al _ u by (rule ToFixedArray_ok) (simp add: sz)
  moreover have "serialized b ! 3 = 0"
    using serialized_nth[OF wf, of 3] by (simp add: sz st h)
  ultimately show ?thesis
    unfolding r using sz at by simp
qed

text \<open>
  Claim C7 says that \<open>At\<close> returns the hole for every index inside a slice's range that
  is not committed. The check \<^verbatim>\<open>DCHECK_LT(index, slice->capacity())\<close> compares the global
  index with the capacity of the slice, not with the end of its range, so for an
  uncommitted index of the second or third slice that is not below that slice's
  capacity the check fails. On the new builder with capacities 4, 4 and 8 the index 5
  lies in the second slice, nothing is stored there, and \<open>At\<close> ends in the failed
  check, while the uncommitted index 3 of the first slice gives the hole. The same
  holds after calls that reserve the first slice, insert a value at index 4 and
  reserve a slot of the second slice. With the capacities 256, 65280 and 4294901760 it
  happens at index 65300.
\<close>

theorem At_unfilled_slot_not_below_capacity:
  "IndexToSlice (new_ConstantArrayBuilder 4 4 8 (0::nat)) 5 = Inr 1 \<and>
   stored (new_ConstantArrayBuilder 4 4 8 (0::nat)) 5 = None \<and>
   At (new_ConstantArrayBuilder 4 4 8 (0::nat)) 5 = Inl IndexNotBelowCapacity \<and>
   At (new_ConstantArrayBuilder 4 4 8 (0::nat)) 3 = Inr 0 \<and>
   At_after (new_ConstantArrayBuilder 4 4 8 (0::nat))
     [CallCreateReservedEntry, CallCreateReservedEntry, CallCreateReservedEntry,
      CallCreateReservedEntry, CallInsert 7, CallCreateReservedEntry] 4 = Inr 7 \<and>
   At_after (new_ConstantArrayBuilder 4 4 8 (0::nat))
     [CallCreateReservedEntry, CallCreateReservedEntry, CallCreateReservedEntry,
      CallCreateReservedEntry, CallInsert 7, CallCreateReservedEntry] 5 =
     Inl IndexNotBelowCapacity \<and>
   IndexToSlice (new_ConstantArrayBuilder 256 65280 4294901760 (0::nat)) 65300 = Inr 1 \<and>
   At (new_ConstantArrayBuilder 256 65280 4294901760 (0::nat)) 65300 =
     Inl IndexNotBelowCapacity"
  by (simp add: At_after_def slice_defs builder_defs stored_def slice_stored_def)

end
